theory Spec2Isabelle
  imports Main "HOL-Library.Multiset" "HOL-Library.Char_ord" "HOL-Library.List_Lexorder"
begin

section \<open>Declarations handled by syz-declextract\<close>

text \<open>
  The tool \<^verbatim>\<open>tools/syz-declextract/run.go\<close> works on nodes of the description
  language (package \<^verbatim>\<open>pkg/ast\<close>).  Only the fields that \<^verbatim>\<open>run.go\<close> reads or writes are
  kept, together with enough of the remaining payload (argument types, return type,
  struct fields) to tell two declarations apart.  Source positions are left out: the
  serializer does not print them.
\<close>

datatype type_expr = Type (Ident: string) (TArgs: "type_expr list")
  \<comment> \<open>\<^verbatim>\<open>ast.Type\<close>: \<^verbatim>\<open>Ident\<close> and \<^verbatim>\<open>Args\<close>\<close>

record field =
  FName :: string      \<comment> \<open>\<^verbatim>\<open>Field.Name.Name\<close>\<close>
  FType :: type_expr   \<comment> \<open>\<^verbatim>\<open>Field.Type\<close>\<close>

record call =
  Name :: string       \<comment> \<open>\<^verbatim>\<open>Call.Name.Name\<close>, the exposed name\<close>
  CallName :: string   \<comment> \<open>\<^verbatim>\<open>Call.CallName\<close>, the entry point\<close>
  Args :: "field list" \<comment> \<open>\<^verbatim>\<open>Call.Args\<close>\<close>
  Ret :: "type_expr option"

record struct =
  SName :: string      \<comment> \<open>\<^verbatim>\<open>Struct.Name.Name\<close>\<close>
  SFields :: "field list"

record include_node =
  File :: string       \<comment> \<open>\<^verbatim>\<open>Include.File.Value\<close>\<close>

record typedef_node =
  TName :: string      \<comment> \<open>\<^verbatim>\<open>TypeDef.Name.Name\<close>\<close>
  TType :: type_expr

record resource =
  RName :: string      \<comment> \<open>\<^verbatim>\<open>Resource.Name.Name\<close>\<close>
  RBase :: type_expr

datatype node =
    NCall call
  | NStruct struct
  | NInclude include_node
  | NTypeDef typedef_node
  | NResource resource
  | NNewLine
  | NOther string  \<comment> \<open>any other node kind; the classifier of \<^verbatim>\<open>main\<close> ignores it\<close>

text \<open>
  How a run ends early.  Modelled from the spec: \<^verbatim>\<open>tool.Fail\<close> and \<^verbatim>\<open>tool.Failf\<close> of
  package \<^verbatim>\<open>pkg/tool\<close>, which is not among the source files; the spec has every failure
  terminate the whole process immediately with a message.  \<open>Fail err\<close> keeps the error
  value it was handed, \<open>Failf msg\<close> the message.  The other two are Go's run-time panics.
\<close>

datatype error =
    IndexOutOfRange      \<comment> \<open>a Go run-time panic on \<^verbatim>\<open>xs[i]\<close>\<close>
  | Failf string         \<comment> \<open>\<^verbatim>\<open>tool.Failf\<close>: message on stderr, exit status 1\<close>
  | Fail "string option" \<comment> \<open>\<^verbatim>\<open>tool.Fail(err)\<close>: prints \<open>err\<close> (\<open>None\<close> is the nil error), exit status 1\<close>
  | NilDereference       \<comment> \<open>a Go run-time panic on a nil pointer\<close>

definition sendmsg :: string where
  "sendmsg = ''sendmsg''"

section \<open>Go library functions used by the tool\<close>

text \<open>\<^verbatim>\<open>xs[i]\<close> panics outside the slice.\<close>

definition idx :: "'a list \<Rightarrow> nat \<Rightarrow> error + 'a" where
  "idx xs i = (if i < length xs then Inr (xs ! i) else Inl IndexOutOfRange)"

text \<open>\<^verbatim>\<open>strings.Compare\<close>: bytewise lexicographic comparison, result in \<open>{-1, 0, 1}\<close>.\<close>

fun Compare :: "string \<Rightarrow> string \<Rightarrow> int" where
  "Compare [] [] = 0"
| "Compare [] (y # ys) = - 1"
| "Compare (x # xs) [] = 1"
| "Compare (x # xs) (y # ys) =
     (if (of_char x :: nat) < of_char y then - 1
      else if (of_char y :: nat) < of_char x then 1
      else Compare xs ys)"

text \<open>\<^verbatim>\<open>slices.CompareFunc\<close>: the first non-zero comparison of paired elements decides;
  otherwise the shorter slice is the smaller one.\<close>

fun CompareFunc :: "'a list \<Rightarrow> 'b list \<Rightarrow> ('a \<Rightarrow> 'b \<Rightarrow> int) \<Rightarrow> int" where
  "CompareFunc [] [] cmp = 0"
| "CompareFunc [] (v2 # s2) cmp = - 1"
| "CompareFunc (v1 # s1) [] cmp = 1"
| "CompareFunc (v1 # s1) (v2 # s2) cmp =
     (let c = cmp v1 v2 in if c \<noteq> 0 then c else CompareFunc s1 s2 cmp)"

text \<open>\<^verbatim>\<open>strconv.Itoa\<close> on a non-negative counter: its decimal digits.\<close>

definition digit :: "nat \<Rightarrow> char" where
  "digit d = ''0123456789'' ! d"

function Itoa :: "nat \<Rightarrow> string" where
  "Itoa n = (if n < 10 then [digit n] else Itoa (n div 10) @ [digit (n mod 10)])"
  by pat_completeness auto
termination
  by (relation "measure (\<lambda>n. n)") auto

declare Itoa.simps [simp del]

section \<open>The syscall renamer\<close>

text \<open>\<^verbatim>\<open>shouldRenameSyscall\<close> and \<^verbatim>\<open>isProhibited\<close> (run.go, lines 318 to 334).\<close>

definition shouldRenameSyscall :: "string \<Rightarrow> bool" where
  "shouldRenameSyscall syscall =
     (if syscall = sendmsg \<or> syscall = ''syz_genetlink_get_family_id'' then False else True)"

definition isProhibited :: "string \<Rightarrow> bool" where
  "isProhibited syscall =
     (if syscall = ''reboot'' \<or> syscall = ''utimesat'' then True else False)"

text \<open>
  \<^verbatim>\<open>renameSyscall\<close> (run.go, lines 251 to 273).  The rename table is a Go
  \<^verbatim>\<open>map[string][]string\<close>; a missing key reads as the nil slice, which is \<open>None\<close> here.
  \<open>renameLoop\<close> is the \<^verbatim>\<open>for _, name := range rename[toReplace]\<close> loop; each clone is the
  declaration with its two fields overwritten.
\<close>

fun renameLoop :: "call \<Rightarrow> string list \<Rightarrow> call list" where
  "renameLoop syscall [] = []"
| "renameLoop syscall (name # names) =
     (if isProhibited name then renameLoop syscall names
      else syscall\<lparr>Name := name @ ''$auto'', CallName := name\<rparr> # renameLoop syscall names)"

definition renameSyscall :: "call \<Rightarrow> (string \<rightharpoonup> string list) \<Rightarrow> call list" where
  "renameSyscall syscall rename =
     (if \<not> shouldRenameSyscall (CallName syscall) then [syscall]
      else case rename (CallName syscall) of
             None \<Rightarrow> []
           | Some names \<Rightarrow> renameLoop syscall names)"

section \<open>Sorting, compaction and binary search of package slices\<close>

text \<open>
  \<^verbatim>\<open>slices.SortFunc\<close> is Go's pattern-defeating quicksort; on a slice of at most twelve
  elements it runs exactly the insertion sort below
  (\<^verbatim>\<open>for i := a+1; i < b; i++ { for j := i; j > a && cmp(data[j], data[j-1]) < 0; j-- { swap } }\<close>).
  On a longer slice Go switches between several strategies.  What the general theorems
  below use of the sort is that its result is a permutation of the slice, that the result
  is sorted with respect to the comparator, and that only elements of the slice are
  compared (\<open>SortFunc_mset\<close>, \<open>SortFunc_sorted\<close>, \<open>SortFunc_total\<close>); each concrete
  evaluation is on a slice of at most three elements.
  The comparator may panic (an index out of range inside it), so it returns a sum and the
  sort passes the panic on.  \<open>insertionStep cmp x pre\<close> moves \<open>x\<close> left through the
  sorted prefix, which is held in reverse (\<open>data[i-1]\<close> first).
\<close>

fun insertionStep :: "('a \<Rightarrow> 'a \<Rightarrow> error + int) \<Rightarrow> 'a \<Rightarrow> 'a list \<Rightarrow> error + 'a list" where
  "insertionStep cmp x [] = Inr [x]"
| "insertionStep cmp x (y # ys) =
     (case cmp x y of
        Inl e \<Rightarrow> Inl e
      | Inr r \<Rightarrow>
          if r < 0 then
            (case insertionStep cmp x ys of Inl e \<Rightarrow> Inl e | Inr zs \<Rightarrow> Inr (y # zs))
          else Inr (x # y # ys))"

fun insertionSort :: "('a \<Rightarrow> 'a \<Rightarrow> error + int) \<Rightarrow> 'a list \<Rightarrow> 'a list \<Rightarrow> error + 'a list" where
  "insertionSort cmp pre [] = Inr (rev pre)"
| "insertionSort cmp pre (x # xs) =
     (case insertionStep cmp x pre of
        Inl e \<Rightarrow> Inl e
      | Inr pre' \<Rightarrow> insertionSort cmp pre' xs)"

definition SortFunc :: "('a \<Rightarrow> 'a \<Rightarrow> error + int) \<Rightarrow> 'a list \<Rightarrow> error + 'a list" where
  "SortFunc cmp xs = insertionSort cmp [] xs"

text \<open>
  \<^verbatim>\<open>slices.CompactFunc\<close> keeps \<open>s[0]\<close> and every \<open>s[k]\<close> for which
  \<open>eq(s[k], s[k-1])\<close> is false, \<open>s[k-1]\<close> being the neighbour in the slice as given.
\<close>

fun compactFrom :: "('a \<Rightarrow> 'a \<Rightarrow> bool) \<Rightarrow> 'a \<Rightarrow> 'a list \<Rightarrow> 'a list" where
  "compactFrom eq prev [] = []"
| "compactFrom eq prev (x # xs) =
     (if eq x prev then compactFrom eq x xs else x # compactFrom eq x xs)"

fun CompactFunc :: "('a \<Rightarrow> 'a \<Rightarrow> bool) \<Rightarrow> 'a list \<Rightarrow> 'a list" where
  "CompactFunc eq [] = []"
| "CompactFunc eq (x # xs) = x # compactFrom eq x xs"

text \<open>\<^verbatim>\<open>slices.BinarySearchFunc\<close>: the loop on \<open>i < j\<close> with \<open>h = (i + j) / 2\<close>.\<close>

function bsearchLoop :: "'a list \<Rightarrow> 't \<Rightarrow> ('a \<Rightarrow> 't \<Rightarrow> int) \<Rightarrow> nat \<Rightarrow> nat \<Rightarrow> nat" where
  "bsearchLoop x target cmp i j =
     (if i < j then
        (let h = (i + j) div 2 in
         if cmp (x ! h) target < 0 then bsearchLoop x target cmp (h + 1) j
         else bsearchLoop x target cmp i h)
      else i)"
  by pat_completeness auto
termination
  by (relation "measure (\<lambda>(x, target, cmp, i, j). j - i)") auto

declare bsearchLoop.simps [simp del]

definition BinarySearchFunc :: "'a list \<Rightarrow> 't \<Rightarrow> ('a \<Rightarrow> 't \<Rightarrow> int) \<Rightarrow> nat \<times> bool" where
  "BinarySearchFunc x target cmp =
     (let n = length x; i = bsearchLoop x target cmp 0 n
      in (i, i < n \<and> cmp (x ! i) target = 0))"

section \<open>The node merger (writeOutput, lines 114 to 162)\<close>

definition includeCmp :: "include_node \<Rightarrow> include_node \<Rightarrow> error + int" where
  "includeCmp a b = Inr (Compare (File a) (File b))"

definition mergeIncludes :: "include_node list \<Rightarrow> error + include_node list" where
  "mergeIncludes incs =
     (case SortFunc includeCmp incs of
        Inl e \<Rightarrow> Inl e
      | Inr s \<Rightarrow> Inr (CompactFunc (\<lambda>a b. File a = File b) s))"

text \<open>The policy name of a send declaration: \<^verbatim>\<open>a.Args[1].Type.Args[1].Args[1].Ident\<close>.\<close>

definition policy :: "call \<Rightarrow> error + string" where
  "policy a =
     (case idx (Args a) 1 of
        Inl e \<Rightarrow> Inl e
      | Inr f \<Rightarrow>
          (case idx (TArgs (FType f)) 1 of
             Inl e \<Rightarrow> Inl e
           | Inr t \<Rightarrow>
               (case idx (TArgs t) 1 of
                  Inl e \<Rightarrow> Inl e
                | Inr p \<Rightarrow> Inr (Ident p))))"

text \<open>The comparator of the syscall sort (lines 121 to 135).\<close>

definition syscallCmp :: "call \<Rightarrow> call \<Rightarrow> error + int" where
  "syscallCmp a b =
     (let nameCmp = Compare (Name a) (Name b) in
      if nameCmp \<noteq> 0 then Inr nameCmp
      else if CallName a = sendmsg then
        (case policy a of
           Inl e \<Rightarrow> Inl e
         | Inr pa \<Rightarrow> (case policy b of Inl e \<Rightarrow> Inl e | Inr pb \<Rightarrow> Inr (Compare pa pb)))
      else Inr (CompareFunc (Args a) (Args b) (\<lambda>a b. Compare (FName a) (FName b))))"

text \<open>
  The suffixing loop (lines 137 to 144).  The slice holds pointers; \<^verbatim>\<open>main\<close> fills it with
  one freshly parsed or freshly cloned declaration per element, so no two elements are the
  same object and the in-place update of one name is an update of that list element.
\<close>

fun addSendmsgNo :: "nat \<Rightarrow> call list \<Rightarrow> call list" where
  "addSendmsgNo sendmsgNo [] = []"
| "addSendmsgNo sendmsgNo (node # rest) =
     (if CallName node = sendmsg
      then node\<lparr>Name := Name node @ Itoa sendmsgNo\<rparr> # addSendmsgNo (sendmsgNo + 1) rest
      else node # addSendmsgNo sendmsgNo rest)"

definition mergeSyscalls :: "call list \<Rightarrow> error + call list" where
  "mergeSyscalls syscalls =
     (case SortFunc syscallCmp syscalls of
        Inl e \<Rightarrow> Inl e
      | Inr s \<Rightarrow> Inr (CompactFunc (\<lambda>a b. Name a = Name b) (addSendmsgNo 0 s)))"

definition structCmp :: "struct \<Rightarrow> struct \<Rightarrow> error + int" where
  "structCmp a b = Inr (Compare (SName a) (SName b))"

definition resourceCmp :: "resource \<Rightarrow> resource \<Rightarrow> error + int" where
  "resourceCmp a b = Inr (Compare (RName a) (RName b))"

definition typedefCmp :: "typedef_node \<Rightarrow> typedef_node \<Rightarrow> error + int" where
  "typedefCmp a b = Inr (Compare (TName a) (TName b))"

section \<open>Union synthesis and the assembled description (writeOutput, lines 164 to 215)\<close>

text \<open>
  \<^verbatim>\<open>writeOutput\<close> assembles a description, a sequence of nodes, and hands it to the
  serializer.  Three runs of its nodes come from \<^verbatim>\<open>ast.Parse\<close> on a text that the function
  builds itself.  This section follows the assembly with the parser's part kept symbolic:
  such a run is \<open>DParsed text\<close>, the nodes the parser yields for \<open>text\<close>.
  \<open>assembleDesc\<close> is the description as it stands after line 215 when no parse came
  back nil.  The whole function, with the parser, the serializer and the file write as
  collaborators and with every exit, is \<open>writeOutput\<close> in the next section.
\<close>

datatype desc_part = DNode node | DParsed string

definition tab :: string where
  "tab = [CHR 0x09]"

definition nl :: string where
  "nl = [CHR 0x0A]"

definition autoGeneratedNotice :: string where
  "autoGeneratedNotice = ''# Code generated by syz-declextract. DO NOT EDIT.'' @ nl"

definition commonKernelHeaders :: string where
  "commonKernelHeaders =
     ''include <include/vdso/bits.h>'' @ nl @ ''include <include/linux/types.h>''"

definition mmap2 :: string where
  "mmap2 = ''_ = __NR_mmap2'' @ nl"

definition netlinkUnionHead :: string where
  "netlinkUnionHead =
     nl @ ''type msghdr_auto[POLICY] msghdr_netlink[netlink_msg_t[autogenerated_netlink, genlmsghdr, POLICY]]'' @
     nl @ ''resource autogenerated_netlink[int16]'' @
     nl @ ''syz_genetlink_get_family_id$auto(name ptr[in, string], fd sock_nl_generic) autogenerated_netlink'' @
     nl @ ''sendmsg$autorun(fd sock_nl_generic, msg ptr[in, auto_union], f flags[send_flags])'' @
     nl @ ''auto_union ['' @ nl"

text \<open>
  The loop over the finalized syscalls (lines 179 to 192).  \<open>usedNetlink\<close> is a
  \<^verbatim>\<open>map[string]bool\<close> that only ever stores \<open>true\<close>: the set of its keys.
\<close>

fun syscallLoop ::
  "struct list \<Rightarrow> call list \<Rightarrow> desc_part list \<times> string set \<Rightarrow> error + desc_part list \<times> string set" where
  "syscallLoop netlinks [] st = Inr st"
| "syscallLoop netlinks (node # rest) (desc, usedNetlink) =
     (if CallName node = sendmsg then
        (case idx (Args node) 1 of
           Inl e \<Rightarrow> Inl e
         | Inr f \<Rightarrow>
             if length (TArgs (FType f)) = 2 then
               (case policy node of
                  Inl e \<Rightarrow> Inl e
                | Inr p \<Rightarrow>
                    if \<not> snd (BinarySearchFunc netlinks p (\<lambda>a b. Compare (SName a) b))
                    then syscallLoop netlinks rest (desc, insert p usedNetlink)
                    else syscallLoop netlinks rest
                           (desc @ [DNode (NCall node)], insert p usedNetlink))
             else syscallLoop netlinks rest (desc @ [DNode (NCall node)], usedNetlink))
      else syscallLoop netlinks rest (desc @ [DNode (NCall node)], usedNetlink))"

text \<open>The loop over the netlink structs (lines 194 to 200).\<close>

fun netlinkLoop ::
  "string set \<Rightarrow> struct list \<Rightarrow> desc_part list \<times> string list \<Rightarrow> desc_part list \<times> string list" where
  "netlinkLoop usedNetlink [] st = st"
| "netlinkLoop usedNetlink (node # rest) (desc, netlinkNames) =
     netlinkLoop usedNetlink rest
       (desc @ [DNode (NStruct node)],
        if SName node \<notin> usedNetlink then netlinkNames @ [SName node] else netlinkNames)"

text \<open>
  The rewriting loop (lines 201 to 203):
  \<^verbatim>\<open>netlinkNames[i] = fmt.Sprintf("\tpolicy%v msghdr_auto[%v]\n", i, netlink)\<close>.
\<close>

definition unionArm :: "nat \<Rightarrow> string \<Rightarrow> string" where
  "unionArm i netlink = tab @ ''policy'' @ Itoa i @ '' msghdr_auto['' @ netlink @ '']'' @ nl"

fun formatArms :: "nat \<Rightarrow> string list \<Rightarrow> string list" where
  "formatArms i [] = []"
| "formatArms i (netlink # rest) = unionArm i netlink # formatArms (i + 1) rest"

definition assembleDesc ::
  "include_node list \<Rightarrow> call list \<Rightarrow> struct list \<Rightarrow> typedef_node list \<Rightarrow> resource list
     \<Rightarrow> error + desc_part list" where
  "assembleDesc incs syscalls netlinks types resources =
     (case mergeIncludes incs of Inl e \<Rightarrow> Inl e | Inr incs1 \<Rightarrow>
      case mergeSyscalls syscalls of Inl e \<Rightarrow> Inl e | Inr syscalls1 \<Rightarrow>
      case SortFunc structCmp netlinks of Inl e \<Rightarrow> Inl e | Inr netlinks1 \<Rightarrow>
      case SortFunc resourceCmp resources of Inl e \<Rightarrow> Inl e | Inr resources1 \<Rightarrow>
      case SortFunc typedefCmp types of Inl e \<Rightarrow> Inl e | Inr types1 \<Rightarrow>
      let desc0 = [DParsed (autoGeneratedNotice @ commonKernelHeaders)]
                  @ map (\<lambda>n. DNode (NInclude n)) incs1
                  @ map (\<lambda>n. DNode (NResource n)) resources1
                  @ map (\<lambda>n. DNode (NTypeDef n)) types1
      in case syscallLoop netlinks1 syscalls1 (desc0, {}) of Inl e \<Rightarrow> Inl e
         | Inr (desc1, usedNetlink) \<Rightarrow>
      let (desc2, netlinkNames) = netlinkLoop usedNetlink netlinks1 (desc1 @ [DParsed mmap2], []);
          netlinkUnion = netlinkUnionHead @ concat (formatArms 0 netlinkNames) @ '']''
      in Inr (desc2 @ [DParsed netlinkUnion]))"

section \<open>writeOutput with its collaborators (lines 112 to 223)\<close>

text \<open>
  The parser, the serializer and the file system are outside \<^verbatim>\<open>run.go\<close>; they are the
  three fields of an environment.  \<open>Parse\<close> is \<^verbatim>\<open>ast.Parse\<close> and returns the nodes of the
  description, or \<open>None\<close> for the nil description.  \<open>Format\<close> is \<^verbatim>\<open>ast.Format\<close> on a
  description that is not nil.  \<open>WriteFile\<close> is \<^verbatim>\<open>os.WriteFile\<close> on the output path and
  returns the error, \<open>None\<close> being nil.
\<close>

record env =
  Parse :: "string \<Rightarrow> node list option"
  Format :: "node list \<Rightarrow> string"
  WriteFile :: "string \<Rightarrow> string option"

text \<open>
  \<^verbatim>\<open>desc\<close> is a pointer, nil when the parse of the header text came back nil; every
  \<^verbatim>\<open>desc.Nodes = append(desc.Nodes, ...)\<close> dereferences it.  \<open>appendNodes\<close> is a loop that
  appends each node of a slice (no dereference when the slice is empty); \<open>appendParsed\<close>
  appends \<^verbatim>\<open>other.Nodes...\<close> for another description pointer \<open>other\<close>.
\<close>

fun appendNodes :: "node list option \<Rightarrow> node list \<Rightarrow> error + node list option" where
  "appendNodes desc [] = Inr desc"
| "appendNodes None (n # ns) = Inl NilDereference"
| "appendNodes (Some nodes) (n # ns) = Inr (Some (nodes @ n # ns))"

definition appendParsed :: "node list option \<Rightarrow> node list option \<Rightarrow> error + node list option" where
  "appendParsed desc other =
     (case desc of
        None \<Rightarrow> Inl NilDereference
      | Some nodes \<Rightarrow>
          (case other of
             None \<Rightarrow> Inl NilDereference
           | Some parsedNodes \<Rightarrow> Inr (Some (nodes @ parsedNodes))))"

text \<open>The loop over the finalized syscalls (lines 179 to 192), appending through the
  pointer.\<close>

fun syscallLoopPtr ::
  "struct list \<Rightarrow> call list \<Rightarrow> node list option \<times> string set
     \<Rightarrow> error + node list option \<times> string set" where
  "syscallLoopPtr netlinks [] st = Inr st"
| "syscallLoopPtr netlinks (node # rest) (desc, usedNetlink) =
     (if CallName node = sendmsg then
        (case idx (Args node) 1 of
           Inl e \<Rightarrow> Inl e
         | Inr f \<Rightarrow>
             if length (TArgs (FType f)) = 2 then
               (case policy node of
                  Inl e \<Rightarrow> Inl e
                | Inr p \<Rightarrow>
                    if \<not> snd (BinarySearchFunc netlinks p (\<lambda>a b. Compare (SName a) b))
                    then syscallLoopPtr netlinks rest (desc, insert p usedNetlink)
                    else (case appendNodes desc [NCall node] of
                            Inl e \<Rightarrow> Inl e
                          | Inr desc' \<Rightarrow>
                              syscallLoopPtr netlinks rest (desc', insert p usedNetlink)))
             else (case appendNodes desc [NCall node] of
                     Inl e \<Rightarrow> Inl e
                   | Inr desc' \<Rightarrow> syscallLoopPtr netlinks rest (desc', usedNetlink)))
      else (case appendNodes desc [NCall node] of
              Inl e \<Rightarrow> Inl e
            | Inr desc' \<Rightarrow> syscallLoopPtr netlinks rest (desc', usedNetlink)))"

text \<open>The loop over the netlink structs (lines 194 to 200), appending through the
  pointer.\<close>

fun netlinkLoopPtr ::
  "string set \<Rightarrow> struct list \<Rightarrow> node list option \<times> string list
     \<Rightarrow> error + node list option \<times> string list" where
  "netlinkLoopPtr usedNetlink [] st = Inr st"
| "netlinkLoopPtr usedNetlink (node # rest) (desc, netlinkNames) =
     (case appendNodes desc [NStruct node] of
        Inl e \<Rightarrow> Inl e
      | Inr desc' \<Rightarrow>
          netlinkLoopPtr usedNetlink rest
            (desc',
             if SName node \<notin> usedNetlink then netlinkNames @ [SName node] else netlinkNames))"

text \<open>
  \<^verbatim>\<open>writeOutput\<close> (lines 112 to 223) in three stretches, in the order of the source.
  \<open>mergeAll\<close> is the five sorts with their compactions (lines 114 to 162).
\<close>

definition mergeAll ::
  "include_node list \<Rightarrow> call list \<Rightarrow> struct list \<Rightarrow> typedef_node list \<Rightarrow> resource list
     \<Rightarrow> error + include_node list \<times> call list \<times> struct list \<times> typedef_node list \<times> resource list" where
  "mergeAll incs syscalls netlinks types resources =
     (case mergeIncludes incs of Inl e \<Rightarrow> Inl e | Inr incs1 \<Rightarrow>
      case mergeSyscalls syscalls of Inl e \<Rightarrow> Inl e | Inr syscalls1 \<Rightarrow>
      case SortFunc structCmp netlinks of Inl e \<Rightarrow> Inl e | Inr netlinks1 \<Rightarrow>
      case SortFunc resourceCmp resources of Inl e \<Rightarrow> Inl e | Inr resources1 \<Rightarrow>
      case SortFunc typedefCmp types of Inl e \<Rightarrow> Inl e | Inr types1 \<Rightarrow>
      Inr (incs1, syscalls1, netlinks1, types1, resources1))"

text \<open>
  \<open>assemblePtr\<close> is the parse of the header text and the appends up to the text of the
  union (lines 164 to 210); it returns the pointer \<^verbatim>\<open>desc\<close> and \<^verbatim>\<open>netlinkUnion\<close>.
\<close>

definition assemblePtr ::
  "env \<Rightarrow> include_node list \<times> call list \<times> struct list \<times> typedef_node list \<times> resource list
     \<Rightarrow> error + node list option \<times> string" where
  "assemblePtr env merged =
     (case merged of (incs1, syscalls1, netlinks1, types1, resources1) \<Rightarrow>
      case appendNodes (Parse env (autoGeneratedNotice @ commonKernelHeaders))
             (map NInclude incs1) of Inl e \<Rightarrow> Inl e | Inr descI \<Rightarrow>
      case appendNodes descI (map NResource resources1) of Inl e \<Rightarrow> Inl e | Inr descR \<Rightarrow>
      case appendNodes descR (map NTypeDef types1) of Inl e \<Rightarrow> Inl e | Inr descT \<Rightarrow>
      case syscallLoopPtr netlinks1 syscalls1 (descT, {}) of Inl e \<Rightarrow> Inl e | Inr stS \<Rightarrow>
      case appendParsed (fst stS) (Parse env mmap2) of Inl e \<Rightarrow> Inl e | Inr descM \<Rightarrow>
      case netlinkLoopPtr (snd stS) netlinks1 (descM, []) of Inl e \<Rightarrow> Inl e | Inr stN \<Rightarrow>
      Inr (fst stN, netlinkUnionHead @ concat (formatArms 0 (snd stN)) @ '']''))"

text \<open>
  \<open>parseAndWrite\<close> is the parse of the union text with its nil check (lines 211 to 215)
  and the write of \<^verbatim>\<open>ast.Format(ast.Parse(ast.Format(desc)))\<close> with its error check
  (lines 217 to 222).  \<^verbatim>\<open>ast.Format\<close> ranges over the nodes of its argument, so a nil
  description there is a nil dereference.  The result on success is the text written to
  the output file.
\<close>

definition parseAndWrite :: "env \<Rightarrow> node list option \<times> string \<Rightarrow> error + string" where
  "parseAndWrite env st =
     (case Parse env (snd st) of
        None \<Rightarrow> Inl (Failf ''parsing error'')
      | Some netlinkUnionParsed \<Rightarrow>
      case appendParsed (fst st) (Some netlinkUnionParsed) of Inl e \<Rightarrow> Inl e | Inr descU \<Rightarrow>
      case descU of None \<Rightarrow> Inl NilDereference | Some nodes \<Rightarrow>
      case Parse env (Format env nodes) of None \<Rightarrow> Inl NilDereference | Some again \<Rightarrow>
      case WriteFile env (Format env again) of
        Some err \<Rightarrow> Inl (Fail (Some err))
      | None \<Rightarrow> Inr (Format env again))"

definition writeOutput ::
  "env \<Rightarrow> include_node list \<Rightarrow> call list \<Rightarrow> struct list \<Rightarrow> typedef_node list
     \<Rightarrow> resource list \<Rightarrow> error + string" where
  "writeOutput env incs syscalls netlinks types resources =
     (case mergeAll incs syscalls netlinks types resources of
        Inl e \<Rightarrow> Inl e
      | Inr merged \<Rightarrow>
          (case assemblePtr env merged of
             Inl e \<Rightarrow> Inl e
           | Inr st \<Rightarrow> parseAndWrite env st))"

text \<open>The nodes of a description with symbolic parts, once the parser has resolved them.\<close>

fun resolve :: "(string \<Rightarrow> node list option) \<Rightarrow> desc_part list \<Rightarrow> node list option" where
  "resolve P [] = Some []"
| "resolve P (DNode n # ds) = map_option (\<lambda>ns. n # ns) (resolve P ds)"
| "resolve P (DParsed text # ds) =
     (case P text of
        None \<Rightarrow> None
      | Some parsed \<Rightarrow> map_option (\<lambda>ns. parsed @ ns) (resolve P ds))"

section \<open>The collector and classifier (main, lines 70 to 109)\<close>

text \<open>
  One result drained from the workers (\<^verbatim>\<open>output\<close> in the source): the error text, and what \<^verbatim>\<open>ast.Parse\<close> makes of
  the standard output (\<open>None\<close> is its nil result).
\<close>

record worker_output =
  stderr :: string
  parsed :: "node list option"

record buckets =
  syscalls_acc :: "call list"
  netlinks_acc :: "struct list"
  includes_acc :: "include_node list"
  typeDefs_acc :: "typedef_node list"
  resources_acc :: "resource list"

definition noBuckets :: buckets where
  "noBuckets = \<lparr>syscalls_acc = [], netlinks_acc = [], includes_acc = [],
                 typeDefs_acc = [], resources_acc = []\<rparr>"

fun classify :: "(string \<rightharpoonup> string list) \<Rightarrow> buckets \<Rightarrow> node \<Rightarrow> buckets" where
  "classify rename b (NCall c) = b\<lparr>syscalls_acc := syscalls_acc b @ renameSyscall c rename\<rparr>"
| "classify rename b (NStruct s) = b\<lparr>netlinks_acc := netlinks_acc b @ [s]\<rparr>"
| "classify rename b (NInclude i) = b\<lparr>includes_acc := includes_acc b @ [i]\<rparr>"
| "classify rename b (NTypeDef t) = b\<lparr>typeDefs_acc := typeDefs_acc b @ [t]\<rparr>"
| "classify rename b (NResource r) = b\<lparr>resources_acc := resources_acc b @ [r]\<rparr>"
| "classify rename b NNewLine = b"
| "classify rename b (NOther x) = b"

fun mainLoop :: "(string \<rightharpoonup> string list) \<Rightarrow> buckets \<Rightarrow> worker_output list \<Rightarrow> error + buckets" where
  "mainLoop rename b [] = Inr b"
| "mainLoop rename b (out # outs) =
     (if stderr out \<noteq> [] then Inl (Failf (stderr out))
      else case parsed out of
             None \<Rightarrow> Inl (Failf ''parsing error'')
           | Some nodes \<Rightarrow> mainLoop rename (foldl (classify rename) b nodes) outs)"

text \<open>
  The run after the rename table is built (lines 79 to 109): drain the results in the
  order given, then \<^verbatim>\<open>writeOutput\<close>.  \<open>mainRun\<close> is the run with its collaborators;
  \<open>pipeline\<close> is the description that the run assembles, with the parser's part symbolic.
\<close>

definition mainRun ::
  "env \<Rightarrow> (string \<rightharpoonup> string list) \<Rightarrow> worker_output list \<Rightarrow> error + string" where
  "mainRun env rename outs =
     (case mainLoop rename noBuckets outs of
        Inl e \<Rightarrow> Inl e
      | Inr b \<Rightarrow> writeOutput env (includes_acc b) (syscalls_acc b) (netlinks_acc b)
                   (typeDefs_acc b) (resources_acc b))"

definition pipeline :: "(string \<rightharpoonup> string list) \<Rightarrow> worker_output list \<Rightarrow> error + desc_part list" where
  "pipeline rename outs =
     (case mainLoop rename noBuckets outs of
        Inl e \<Rightarrow> Inl e
      | Inr b \<Rightarrow> assembleDesc (includes_acc b) (syscalls_acc b) (netlinks_acc b)
                   (typeDefs_acc b) (resources_acc b))"

section \<open>The architecture syscall table reader (readSyscallNames, lines 275 to 316)\<close>

definition HasSuffix :: "string \<Rightarrow> string \<Rightarrow> bool" where
  "HasSuffix s suffix =
     (length suffix \<le> length s \<and> drop (length s - length suffix) s = suffix)"

definition HasPrefix :: "string \<Rightarrow> string \<Rightarrow> bool" where
  "HasPrefix s prefix = (length prefix \<le> length s \<and> take (length prefix) s = prefix)"

definition TrimPrefix :: "string \<Rightarrow> string \<Rightarrow> string" where
  "TrimPrefix s prefix = (if HasPrefix s prefix then drop (length prefix) s else s)"

text \<open>
  What the callback of \<^verbatim>\<open>filepath.Walk\<close> meets at one visited path: the path, the error
  \<^verbatim>\<open>err\<close> that Walk passes in (\<open>None\<close> is nil), the result of \<^verbatim>\<open>os.Lstat\<close> (its error
  \<^verbatim>\<open>fErr\<close>, or whether the mode has \<^verbatim>\<open>fs.ModeSymlink\<close>), and the result of \<^verbatim>\<open>os.Open\<close>
  (its error \<^verbatim>\<open>fErr\<close>, or the lines of the file, each already split by
  \<^verbatim>\<open>strings.Fields\<close>).
\<close>

record visited =
  path :: string
  walkErr :: "string option"
  lstat :: "string + bool"
  opened :: "string + string list list"

text \<open>One scanned line (lines 296 to 304); \<open>flds\<close> is \<^verbatim>\<open>strings.Fields(s.Text())\<close>.\<close>

definition scanLine :: "(string \<rightharpoonup> string list) \<Rightarrow> string list \<Rightarrow> (string \<rightharpoonup> string list)" where
  "scanLine rename flds =
     (if length flds < 4 \<or> flds ! 0 = ''#'' \<or> HasPrefix (flds ! 2) ''unused'' \<or>
         flds ! 3 = ''-'' \<or> HasPrefix (flds ! 3) ''compat'' \<or>
         HasPrefix (flds ! 3) ''sys_ia32'' \<or> flds ! 3 = ''sys_ni_syscall''
      then rename
      else let key = TrimPrefix (flds ! 3) ''sys_''
           in rename(key \<mapsto> (case rename key of None \<Rightarrow> [] | Some names \<Rightarrow> names) @ [flds ! 2]))"

text \<open>
  The callback (lines 279 to 307).  Both failure branches test \<^verbatim>\<open>fErr\<close> and call
  \<^verbatim>\<open>tool.Fail(err)\<close>, with the callback's parameter \<^verbatim>\<open>err\<close>.
\<close>

definition walkFn :: "(string \<rightharpoonup> string list) \<Rightarrow> visited \<Rightarrow> error + (string \<rightharpoonup> string list)" where
  "walkFn rename v =
     (if \<not> HasSuffix (path v) ''.tbl'' then Inr rename
      else case lstat v of
             Inl fErr \<Rightarrow> Inl (Fail (walkErr v))
           | Inr isSymlink \<Rightarrow>
               if isSymlink then Inr rename
               else (case opened v of
                       Inl fErr \<Rightarrow> Inl (Fail (walkErr v))
                     | Inr lines \<Rightarrow> Inr (foldl scanLine rename lines)))"

fun walk :: "(string \<rightharpoonup> string list) \<Rightarrow> visited list \<Rightarrow> error + (string \<rightharpoonup> string list)" where
  "walk rename [] = Inr rename"
| "walk rename (v # vs) =
     (case walkFn rename v of Inl e \<Rightarrow> Inl e | Inr rename' \<Rightarrow> walk rename' vs)"

text \<open>\<^verbatim>\<open>slices.Sort\<close> and \<^verbatim>\<open>slices.Compact\<close> on the names of one key (lines 310 to 313).\<close>

definition sortCompact :: "string list \<Rightarrow> string list" where
  "sortCompact names =
     (case SortFunc (\<lambda>a b. Inr (Compare a b)) names of
        Inl e \<Rightarrow> names
      | Inr s \<Rightarrow> CompactFunc (\<lambda>a b. a = b) s)"

text \<open>The argument lists every path the walks over all architectures visit, in order.\<close>

definition readSyscallNames :: "visited list \<Rightarrow> error + (string \<rightharpoonup> string list)" where
  "readSyscallNames vs =
     (case walk Map.empty vs of
        Inl e \<Rightarrow> Inl e
      | Inr rename \<Rightarrow> Inr (\<lambda>k. map_option sortCompact (rename k)))"

section \<open>The renamer on a store of declaration objects\<close>

text \<open>
  \<^verbatim>\<open>renameSyscall\<close> receives a pointer to a \<^verbatim>\<open>Call\<close> and writes through the pointers of
  its clones.  The store below holds the two kinds of object that \<^verbatim>\<open>run.go\<close> writes to:
  \<^verbatim>\<open>Call\<close> objects, and the \<^verbatim>\<open>Ident\<close> object a call's \<^verbatim>\<open>Name\<close> field points to.
  Arguments and types are never written by the tool and stay values.  Addresses are
  handed out by a counter.
\<close>

type_synonym addr = nat

record call_obj =
  CName :: addr               \<comment> \<open>\<^verbatim>\<open>Call.Name\<close>, a pointer to an \<^verbatim>\<open>Ident\<close>\<close>
  CCallName :: string
  CArgs :: "field list"
  CRet :: "type_expr option"

record store =
  calls :: "addr \<rightharpoonup> call_obj"
  idents :: "addr \<rightharpoonup> string"  \<comment> \<open>\<^verbatim>\<open>Ident.Name\<close> of each \<^verbatim>\<open>Ident\<close> object\<close>
  nextAddr :: addr

text \<open>
  Modelled from the spec: \<^verbatim>\<open>(*ast.Call).Clone\<close> of package \<^verbatim>\<open>pkg/ast\<close>, which is not
  among the source files.  The spec has cloning produce a fully independent owned copy
  with no aliasing back to the original: a new \<^verbatim>\<open>Call\<close> object whose \<^verbatim>\<open>Name\<close> points to a
  new \<^verbatim>\<open>Ident\<close> object, both holding the values of the original.
\<close>

definition Clone :: "store \<Rightarrow> addr \<Rightarrow> error + addr \<times> store" where
  "Clone h p =
     (case calls h p of
        None \<Rightarrow> Inl NilDereference
      | Some c \<Rightarrow>
          (case idents h (CName c) of
             None \<Rightarrow> Inl NilDereference
           | Some nm \<Rightarrow>
               let ni = nextAddr h; nc = nextAddr h + 1
               in Inr (nc, h\<lparr>calls := (calls h)(nc \<mapsto> c\<lparr>CName := ni\<rparr>),
                             idents := (idents h)(ni \<mapsto> nm),
                             nextAddr := nextAddr h + 2\<rparr>)))"

text \<open>\<^verbatim>\<open>newCall.Name.Name = v\<close> and \<^verbatim>\<open>newCall.CallName = v\<close>, writes through a pointer.\<close>

definition setNameName :: "store \<Rightarrow> addr \<Rightarrow> string \<Rightarrow> error + store" where
  "setNameName h p v =
     (case calls h p of
        None \<Rightarrow> Inl NilDereference
      | Some c \<Rightarrow>
          if CName c \<in> dom (idents h) then Inr (h\<lparr>idents := (idents h)(CName c \<mapsto> v)\<rparr>)
          else Inl NilDereference)"

definition setCallName :: "store \<Rightarrow> addr \<Rightarrow> string \<Rightarrow> error + store" where
  "setCallName h p v =
     (case calls h p of
        None \<Rightarrow> Inl NilDereference
      | Some c \<Rightarrow> Inr (h\<lparr>calls := (calls h)(p \<mapsto> c\<lparr>CCallName := v\<rparr>)\<rparr>))"

text \<open>One iteration of the loop of \<^verbatim>\<open>renameSyscall\<close> for a name that is not
  prohibited (lines 266 to 268): clone, then the two writes through the clone.\<close>

definition renameOne :: "store \<Rightarrow> addr \<Rightarrow> string \<Rightarrow> error + addr \<times> store" where
  "renameOne h syscall name =
     (case Clone h syscall of
        Inl e \<Rightarrow> Inl e
      | Inr (newCall, h1) \<Rightarrow>
          (case setNameName h1 newCall (name @ ''$auto'') of
             Inl e \<Rightarrow> Inl e
           | Inr h2 \<Rightarrow>
               (case setCallName h2 newCall name of
                  Inl e \<Rightarrow> Inl e
                | Inr h3 \<Rightarrow> Inr (newCall, h3))))"

text \<open>The loop (lines 262 to 270) on the store.\<close>

fun renameLoopSt :: "store \<Rightarrow> addr \<Rightarrow> string list \<Rightarrow> error + addr list \<times> store" where
  "renameLoopSt h syscall [] = Inr ([], h)"
| "renameLoopSt h syscall (name # names) =
     (if isProhibited name then renameLoopSt h syscall names
      else case renameOne h syscall name of
             Inl e \<Rightarrow> Inl e
           | Inr (newCall, h3) \<Rightarrow>
               (case renameLoopSt h3 syscall names of
                  Inl e \<Rightarrow> Inl e
                | Inr (renamed, h4) \<Rightarrow> Inr (newCall # renamed, h4)))"

definition renameSyscallSt ::
  "store \<Rightarrow> addr \<Rightarrow> (string \<rightharpoonup> string list) \<Rightarrow> error + addr list \<times> store" where
  "renameSyscallSt h syscall rename =
     (case calls h syscall of
        None \<Rightarrow> Inl NilDereference
      | Some c \<Rightarrow>
          if \<not> shouldRenameSyscall (CCallName c) then Inr ([syscall], h)
          else (case rename (CCallName c) of
                  None \<Rightarrow> Inr ([], h)
                | Some names \<Rightarrow> renameLoopSt h syscall names))"

text \<open>The declaration a pointer stands for, and the store's allocation invariant.\<close>

definition deref :: "store \<Rightarrow> addr \<Rightarrow> call option" where
  "deref h p =
     (case calls h p of
        None \<Rightarrow> None
      | Some c \<Rightarrow>
          (case idents h (CName c) of
             None \<Rightarrow> None
           | Some nm \<Rightarrow> Some \<lparr>Name = nm, CallName = CCallName c, Args = CArgs c, Ret = CRet c\<rparr>))"

definition allocated :: "store \<Rightarrow> bool" where
  "allocated h =
     ((\<forall>a \<in> dom (calls h). a < nextAddr h) \<and> (\<forall>a \<in> dom (idents h). a < nextAddr h))"

section \<open>What one node adds to each accumulator\<close>

text \<open>The five accumulators of \<open>classify\<close>, read off one node at a time.\<close>

fun callsOf :: "(string \<rightharpoonup> string list) \<Rightarrow> node \<Rightarrow> call list" where
  "callsOf rename (NCall c) = renameSyscall c rename"
| "callsOf rename n = []"

fun structsOf :: "node \<Rightarrow> struct list" where
  "structsOf (NStruct s) = [s]"
| "structsOf n = []"

fun includesOf :: "node \<Rightarrow> include_node list" where
  "includesOf (NInclude i) = [i]"
| "includesOf n = []"

fun typeDefsOf :: "node \<Rightarrow> typedef_node list" where
  "typeDefsOf (NTypeDef t) = [t]"
| "typeDefsOf n = []"

fun resourcesOf :: "node \<Rightarrow> resource list" where
  "resourcesOf (NResource r) = [r]"
| "resourcesOf n = []"

section \<open>Names of parsed declarations\<close>

text \<open>
  The parser of package \<^verbatim>\<open>pkg/ast\<close> (not among the source files) sets the entry point of
  a call it parses to the part of the exposed name before the first \<open>$\<close>; the comment at
  line 268 of \<^verbatim>\<open>run.go\<close> refers to this reading of \<^verbatim>\<open>CallName\<close>.  \<open>callName\<close> is that part.
\<close>

definition callName :: "string \<Rightarrow> string" where
  "callName s = takeWhile (\<lambda>c. c \<noteq> CHR ''$'') s"

section \<open>Shapes of declarations\<close>

text \<open>
  The shape that \<^verbatim>\<open>a.Args[1].Type.Args[1].Args[1]\<close> needs: at least two arguments, at
  least two type arguments in the type of the second argument, and at least two type
  arguments in the second of those.
\<close>

definition policyShape :: "call \<Rightarrow> bool" where
  "policyShape c =
     (2 \<le> length (Args c) \<and> 2 \<le> length (TArgs (FType (Args c ! 1))) \<and>
      2 \<le> length (TArgs (TArgs (FType (Args c ! 1)) ! 1)))"

text \<open>
  The two-argument policy-qualified shape that the assembly loop tests (line 181):
  a send declaration whose second argument's type has exactly two type arguments.
\<close>

definition policyQualified :: "call \<Rightarrow> bool" where
  "policyQualified c = (CallName c = sendmsg \<and> length (TArgs (FType (Args c ! 1))) = 2)"

text \<open>
  The ordering key in the spec's words, "the sorted sequence of argument names"; the
  comparator of the source is \<open>syscallCmp\<close>.
\<close>

definition sortedArgNames :: "call \<Rightarrow> string list" where
  "sortedArgNames c = sort (map FName (Args c))"

section \<open>Example inputs\<close>

text \<open>Concrete declarations and tables on which the theorems below are exercised.\<close>

text \<open>Collaborators for which every parse yields the empty description and every write
  succeeds.\<close>

definition quiet_env :: env where
  "quiet_env = \<lparr>Parse = (\<lambda>text. Some []), Format = (\<lambda>nodes. []), WriteFile = (\<lambda>bytes. None)\<rparr>"

definition setuid16_call :: call where
  "setuid16_call =
     \<lparr>Name = ''setuid16'', CallName = ''setuid16'',
      Args = [\<lparr>FName = ''uid'', FType = Type ''old_uid_t'' []\<rparr>], Ret = None\<rparr>"

definition setuid_table :: "string \<rightharpoonup> string list" where
  "setuid_table = [''setuid16'' \<mapsto> [''setuid'', ''setuid32''], ''utimes'' \<mapsto> [''utimes'', ''utimesat'']]"

definition utimes_call :: call where
  "utimes_call =
     \<lparr>Name = ''utimes'', CallName = ''utimes'',
      Args = [\<lparr>FName = ''filename'', FType = Type ''ptr'' [Type ''in'' [], Type ''filename'' []]\<rparr>],
      Ret = None\<rparr>"

definition family_id_call :: call where
  "family_id_call =
     \<lparr>Name = ''syz_genetlink_get_family_id$auto_nl80211'',
      CallName = ''syz_genetlink_get_family_id'',
      Args = [\<lparr>FName = ''name'', FType = Type ''ptr'' [Type ''in'' [], Type ''string'' []]\<rparr>],
      Ret = Some (Type ''nl80211_family_id_auto'' [])\<rparr>"

definition unknown_call :: call where
  "unknown_call = \<lparr>Name = ''foo'', CallName = ''foo'', Args = [], Ret = None\<rparr>"

definition unopenable_tbl :: visited where
  "unopenable_tbl =
     \<lparr>path = ''arch/x86/entry/syscalls/syscall_64.tbl'', walkErr = None,
      lstat = Inr False, opened = Inl ''permission denied''\<rparr>"

definition msg_type :: "string \<Rightarrow> type_expr" where
  "msg_type pol =
     Type ''ptr'' [Type ''in'' [], Type ''msghdr_auto'' [Type ''nl_cmd'' [], Type pol []]]"

definition send_call :: "string \<Rightarrow> string \<Rightarrow> call" where
  "send_call name pol =
     \<lparr>Name = name, CallName = ''sendmsg'',
      Args = [\<lparr>FName = ''fd'', FType = Type ''sock_nl_generic'' []\<rparr>,
              \<lparr>FName = ''msg'', FType = msg_type pol\<rparr>,
              \<lparr>FName = ''f'', FType = Type ''flags'' [Type ''send_flags'' []]\<rparr>],
      Ret = None\<rparr>"

definition plain_call :: "string \<Rightarrow> string \<Rightarrow> (string \<times> string) list \<Rightarrow> call" where
  "plain_call name entry args =
     \<lparr>Name = name, CallName = entry,
      Args = map (\<lambda>(n, t). \<lparr>FName = n, FType = Type t []\<rparr>) args, Ret = None\<rparr>"

definition ex_netlinks :: "struct list" where
  "ex_netlinks =
     [\<lparr>SName = ''pol2'', SFields = [\<lparr>FName = ''a'', FType = Type ''nlattr'' []\<rparr>]\<rparr>,
      \<lparr>SName = ''pol1'', SFields = []\<rparr>]"

definition ex_syscalls :: "call list" where
  "ex_syscalls =
     [send_call ''sendmsg$auto'' ''pol9'', send_call ''sendmsg$auto'' ''pol1'',
      plain_call ''getpid$auto'' ''getpid'' []]"

definition ex_sorted :: "call list" where
  "ex_sorted =
     [plain_call ''getpid$auto'' ''getpid'' [], send_call ''sendmsg$auto'' ''pol1'',
      send_call ''sendmsg$auto'' ''pol9'']"

definition ex_final :: "call list" where
  "ex_final =
     [plain_call ''getpid$auto'' ''getpid'' [], send_call ''sendmsg$auto0'' ''pol1'',
      send_call ''sendmsg$auto1'' ''pol9'']"

definition ex_desc :: "desc_part list" where
  "ex_desc =
     [DParsed (autoGeneratedNotice @ commonKernelHeaders),
      DNode (NCall (plain_call ''getpid$auto'' ''getpid'' [])),
      DNode (NCall (send_call ''sendmsg$auto0'' ''pol1'')),
      DParsed mmap2,
      DNode (NStruct \<lparr>SName = ''pol1'', SFields = []\<rparr>),
      DNode (NStruct \<lparr>SName = ''pol2'', SFields = [\<lparr>FName = ''a'', FType = Type ''nlattr'' []\<rparr>]\<rparr>),
      DParsed (netlinkUnionHead @ [CHR 0x09] @ ''policy0 msghdr_auto[pol2]'' @ [CHR 0x0A] @ '']'')]"

text \<open>A send declaration whose message argument is \<^verbatim>\<open>ptr[in, msghdr_auto[nl_cmd, pol], opt]\<close>:
  three type arguments.\<close>

definition msg_type_opt :: "string \<Rightarrow> type_expr" where
  "msg_type_opt pol =
     Type ''ptr'' [Type ''in'' [], Type ''msghdr_auto'' [Type ''nl_cmd'' [], Type pol []],
                   Type ''opt'' []]"

definition send_opt_call :: "string \<Rightarrow> string \<Rightarrow> call" where
  "send_opt_call name pol =
     \<lparr>Name = name, CallName = ''sendmsg'',
      Args = [\<lparr>FName = ''fd'', FType = Type ''sock_nl_generic'' []\<rparr>,
              \<lparr>FName = ''msg'', FType = msg_type_opt pol\<rparr>,
              \<lparr>FName = ''f'', FType = Type ''flags'' [Type ''send_flags'' []]\<rparr>],
      Ret = None\<rparr>"

definition args_ba_call :: call where
  "args_ba_call = plain_call ''dup$auto'' ''dup'' [(''b'', ''int32''), (''a'', ''int32'')]"

definition args_ac_call :: call where
  "args_ac_call = plain_call ''dup$auto'' ''dup'' [(''a'', ''int32''), (''c'', ''int32'')]"

definition dup_table :: "string \<rightharpoonup> string list" where
  "dup_table = [''dup'' \<mapsto> [''dup'']]"

definition dup_int32_out :: worker_output where
  "dup_int32_out =
     \<lparr>stderr = [], parsed = Some [NCall (plain_call ''dup'' ''dup'' [(''fd'', ''int32'')])]\<rparr>"

definition dup_int64_out :: worker_output where
  "dup_int64_out =
     \<lparr>stderr = [], parsed = Some [NCall (plain_call ''dup'' ''dup'' [(''fd'', ''int64'')])]\<rparr>"

definition getpid_out :: worker_output where
  "getpid_out =
     \<lparr>stderr = [],
      parsed = Some [NInclude \<lparr>File = ''linux/sched.h''\<rparr>,
                     NCall (plain_call ''getpid'' ''getpid'' []), NNewLine]\<rparr>"

definition single_call_desc :: "call \<Rightarrow> desc_part list" where
  "single_call_desc c =
     [DParsed (autoGeneratedNotice @ commonKernelHeaders), DNode (NCall c), DParsed mmap2,
      DParsed (netlinkUnionHead @ '']'')]"

text \<open>
  The renaming that the comment at lines 76 and 77 gives as its example: the table files
  list \<^verbatim>\<open>setuid\<close> for the entry point \<^verbatim>\<open>setuid16\<close>, and \<^verbatim>\<open>setuid\<close> and \<^verbatim>\<open>setuid32\<close> for
  the entry point \<^verbatim>\<open>setuid\<close>.  One compilation unit declares \<^verbatim>\<open>setuid16(uid old_uid_t)\<close>,
  another \<^verbatim>\<open>setuid(uid uid_t)\<close>.
\<close>

definition uid_table :: "string \<rightharpoonup> string list" where
  "uid_table = [''setuid16'' \<mapsto> [''setuid''], ''setuid'' \<mapsto> [''setuid'', ''setuid32'']]"

definition uid16_out :: worker_output where
  "uid16_out = \<lparr>stderr = [], parsed = Some [NCall setuid16_call]\<rparr>"

definition uid_out :: worker_output where
  "uid_out =
     \<lparr>stderr = [], parsed = Some [NCall (plain_call ''setuid'' ''setuid'' [(''uid'', ''uid_t'')])]\<rparr>"

definition uid_desc :: "string \<Rightarrow> desc_part list" where
  "uid_desc t =
     [DParsed (autoGeneratedNotice @ commonKernelHeaders),
      DNode (NCall (plain_call ''setuid$auto'' ''setuid'' [(''uid'', t)])),
      DNode (NCall (plain_call ''setuid32$auto'' ''setuid32'' [(''uid'', ''uid_t'')])),
      DParsed mmap2,
      DParsed (netlinkUnionHead @ '']'')]"

definition det_table :: "string \<rightharpoonup> string list" where
  "det_table = [''dup'' \<mapsto> [''dup''], ''getpid'' \<mapsto> [''getpid'']]"

definition det_buckets :: buckets where
  "det_buckets =
     \<lparr>syscalls_acc = [plain_call ''getpid$auto'' ''getpid'' [],
                      plain_call ''dup$auto'' ''dup'' [(''fd'', ''int32'')]],
      netlinks_acc = [],
      includes_acc = [\<lparr>File = ''linux/sched.h''\<rparr>],
      typeDefs_acc = [],
      resources_acc = []\<rparr>"

definition setuid16_store :: store where
  "setuid16_store =
     \<lparr>calls = [1 \<mapsto> \<lparr>CName = 0, CCallName = ''setuid16'',
                        CArgs = [\<lparr>FName = ''uid'', FType = Type ''old_uid_t'' []\<rparr>], CRet = None\<rparr>],
      idents = [0 \<mapsto> ''setuid16''],
      nextAddr = 2\<rparr>"

section \<open>Facts about the library functions\<close>

subsection \<open>String comparison and decimal numerals\<close>

lemma Compare_less_iff: "Compare a b < 0 \<longleftrightarrow> a < b"
  by (induction a b rule: Compare.induct) (auto simp: less_char_def)

lemma Compare_eq_iff: "Compare a b = 0 \<longleftrightarrow> a = b"
  by (induction a b rule: Compare.induct) auto

lemma Compare_nonneg_iff: "0 \<le> Compare a b \<longleftrightarrow> b \<le> a"
  using Compare_less_iff [of a b] by auto

lemma Compare_pos_iff: "0 < Compare a b \<longleftrightarrow> b < a"
  using Compare_less_iff [of a b] Compare_eq_iff [of a b] by auto

lemma CompareFunc_names_less:
  "CompareFunc xs ys (\<lambda>a b. Compare (FName a) (FName b)) < 0 \<longleftrightarrow>
     map FName (xs :: field list) < map FName (ys :: field list)"
  by (induction xs ys "\<lambda>(a :: field) (b :: field). Compare (FName a) (FName b)" rule: CompareFunc.induct)
     (auto simp: Let_def Compare_less_iff Compare_eq_iff)

lemma CompareFunc_names_eq:
  "CompareFunc xs ys (\<lambda>a b. Compare (FName a) (FName b)) = 0 \<longleftrightarrow>
     map FName (xs :: field list) = map FName (ys :: field list)"
  by (induction xs ys "\<lambda>(a :: field) (b :: field). Compare (FName a) (FName b)" rule: CompareFunc.induct)
     (auto simp: Let_def Compare_less_iff Compare_eq_iff)

lemma Itoa_not_Nil: "Itoa n \<noteq> []"
  by (subst Itoa.simps) simp

lemma length_Itoa_mono: "m \<le> n \<Longrightarrow> length (Itoa m) \<le> length (Itoa n)"
proof (induction n arbitrary: m rule: Itoa.induct)
  case (1 n)
  show ?case
  proof (cases "n < 10")
    case True
    with "1.prems" have "m < 10" by simp
    with True show ?thesis by (simp add: Itoa.simps)
  next
    case False
    show ?thesis
    proof (cases "m < 10")
      case True
      with False show ?thesis
        using Itoa_not_Nil [of "n div 10"]
        by (simp add: Itoa.simps [of m] Itoa.simps [of n] Suc_leI)
    next
      case m: False
      from "1.prems" have "m div 10 \<le> n div 10" by (rule div_le_mono)
      from "1.IH" [OF False this] m False show ?thesis
        by (simp add: Itoa.simps [of m] Itoa.simps [of n])
    qed
  qed
qed

lemma digit_inj: "a < 10 \<Longrightarrow> b < 10 \<Longrightarrow> digit a = digit b \<Longrightarrow> a = b"
proof -
  assume a: "a < 10" and b: "b < 10" and e: "digit a = digit b"
  have d: "distinct ''0123456789''" by simp
  have "length ''0123456789'' = 10" by simp
  with a b e d show ?thesis
    unfolding digit_def by (metis nth_eq_iff_index_eq)
qed

lemma Itoa_inj: "Itoa m = Itoa n \<Longrightarrow> m = n"
proof (induction n arbitrary: m rule: Itoa.induct)
  case (1 n)
  show ?case
  proof (cases "n < 10")
    case True
    show ?thesis
    proof (cases "m < 10")
      case m: True
      with True "1.prems" show ?thesis by (simp add: Itoa.simps digit_inj)
    next
      case m: False
      with True "1.prems" Itoa_not_Nil [of "m div 10"] show ?thesis
        by (simp add: Itoa.simps [of m] Itoa.simps [of n])
    qed
  next
    case False
    show ?thesis
    proof (cases "m < 10")
      case m: True
      with False "1.prems" Itoa_not_Nil [of "n div 10"] show ?thesis
        by (simp add: Itoa.simps [of m] Itoa.simps [of n])
    next
      case m: False
      with False "1.prems" have e: "Itoa (m div 10) = Itoa (n div 10)" 
        and d: "digit (m mod 10) = digit (n mod 10)"
        by (simp_all add: Itoa.simps [of m] Itoa.simps [of n])
      from "1.IH" [OF False e] have "m div 10 = n div 10" .
      moreover from d have "m mod 10 = n mod 10" by (simp add: digit_inj)
      ultimately show ?thesis by (metis div_mult_mod_eq)
    qed
  qed
qed

lemma less_append_self: "zs \<noteq> [] \<Longrightarrow> (b :: string) < b @ zs"
  by (induction b) (auto simp: neq_Nil_conv)

lemma suffixed_names_differ:
  assumes "a \<le> b" and "i < j"
  shows "a @ Itoa i \<noteq> b @ Itoa j"
proof
  assume e: "a @ Itoa i = b @ Itoa j"
  from assms(2) have l: "length (Itoa i) \<le> length (Itoa j)" by (simp add: length_Itoa_mono)
  show False
  proof (cases "length (Itoa i) = length (Itoa j)")
    case True
    with e have "Itoa i = Itoa j" by (metis append_eq_append_conv)
    then have "i = j" by (rule Itoa_inj)
    with assms(2) show False by simp
  next
    case False
    with l have "length (Itoa i) < length (Itoa j)" by simp
    moreover from e have "length (a @ Itoa i) = length (b @ Itoa j)" by simp
    ultimately have lt: "length b < length a" by simp
    from e have "take (length b) (a @ Itoa i) = b" by simp
    with lt have "take (length b) a = b" by simp
    then have "a = b @ drop (length b) a" by (metis append_take_drop_id)
    moreover from lt have "drop (length b) a \<noteq> []" by simp
    ultimately obtain zs where "a = b @ zs" "zs \<noteq> []" by blast
    then have "b < a" by (simp add: less_append_self)
    with assms(1) show False by simp
  qed
qed

lemma name_less_suffixed: "a \<le> b \<Longrightarrow> a \<noteq> b @ Itoa j"
proof
  assume "a \<le> b" "a = b @ Itoa j"
  moreover have "b < b @ Itoa j" using Itoa_not_Nil [of j] by (simp add: less_append_self)
  ultimately show False by simp
qed

subsection \<open>Insertion sort\<close>

lemma insertionStep_mset:
  "insertionStep cmp x pre = Inr zs \<Longrightarrow> mset zs = add_mset x (mset pre)"
  by (induction pre arbitrary: zs) (auto split: sum.splits if_splits)

lemma insertionSort_mset:
  "insertionSort cmp pre xs = Inr ys \<Longrightarrow> mset ys = mset pre + mset xs"
proof (induction xs arbitrary: pre)
  case Nil
  then show ?case by auto
next
  case (Cons x xs)
  from Cons.prems obtain pre' where s: "insertionStep cmp x pre = Inr pre'"
    and r: "insertionSort cmp pre' xs = Inr ys"
    by (auto split: sum.splits)
  from Cons.IH [OF r] insertionStep_mset [OF s] show ?case by simp
qed

lemma SortFunc_mset: "SortFunc cmp xs = Inr ys \<Longrightarrow> mset ys = mset xs"
  unfolding SortFunc_def by (drule insertionSort_mset) simp

lemma SortFunc_set: "SortFunc cmp xs = Inr ys \<Longrightarrow> set ys = set xs"
  by (drule SortFunc_mset) (rule mset_eq_setD)

lemma insertionStep_set:
  assumes "insertionStep cmp x pre = Inr zs"
  shows "set zs = insert x (set pre)"
proof -
  from assms have "mset zs = add_mset x (mset pre)" by (rule insertionStep_mset)
  then have "set_mset (mset zs) = set_mset (add_mset x (mset pre))" by simp
  then show ?thesis by simp
qed

lemma insertionStep_sorted:
  assumes step: "insertionStep cmp x pre = Inr zs"
    and srt: "sorted_wrt (\<lambda>a b. R b a) pre"
    and mem: "x \<in> S" "set pre \<subseteq> S"
    and lt: "\<And>a b r. a \<in> S \<Longrightarrow> b \<in> S \<Longrightarrow> cmp a b = Inr r \<Longrightarrow> r < 0 \<Longrightarrow> R a b"
    and ge: "\<And>a b r. a \<in> S \<Longrightarrow> b \<in> S \<Longrightarrow> cmp a b = Inr r \<Longrightarrow> 0 \<le> r \<Longrightarrow> R b a"
    and tr: "\<And>a b c. a \<in> S \<Longrightarrow> b \<in> S \<Longrightarrow> c \<in> S \<Longrightarrow> R a b \<Longrightarrow> R b c \<Longrightarrow> R a c"
  shows "sorted_wrt (\<lambda>a b. R b a) zs"
  using step srt mem(2)
proof (induction pre arbitrary: zs)
  case Nil
  then show ?case by auto
next
  case (Cons y ys)
  from Cons.prems(3) have yS: "y \<in> S" and ysS: "set ys \<subseteq> S" by simp_all
  from Cons.prems(2) have sys: "sorted_wrt (\<lambda>a b. R b a) ys" and ball: "\<forall>z \<in> set ys. R z y"
    by simp_all
  from Cons.prems(1) obtain r where r: "cmp x y = Inr r" by (auto split: sum.splits)
  show ?case
  proof (cases "r < 0")
    case True
    with Cons.prems(1) r obtain zs' where s: "insertionStep cmp x ys = Inr zs'" and z: "zs = y # zs'"
      by (auto split: sum.splits)
    have "sorted_wrt (\<lambda>a b. R b a) zs'" by (rule Cons.IH [OF s sys ysS])
    moreover have "set zs' = insert x (set ys)" by (rule insertionStep_set [OF s])
    moreover have "R x y" by (rule lt [OF mem(1) yS r True])
    ultimately show ?thesis using z ball by simp
  next
    case False
    with Cons.prems(1) r have z: "zs = x # y # ys" by auto
    from False have "0 \<le> r" by simp
    then have yx: "R y x" by (rule ge [OF mem(1) yS r])
    have "\<forall>z \<in> set ys. R z x"
    proof
      fix z assume zin: "z \<in> set ys"
      with ball have "R z y" by simp
      moreover from zin ysS have "z \<in> S" by auto
      ultimately show "R z x" using tr yS mem(1) yx by blast
    qed
    with yx z Cons.prems(2) show ?thesis by simp
  qed
qed

lemma insertionSort_sorted:
  assumes run: "insertionSort cmp pre xs = Inr ys"
    and srt: "sorted_wrt (\<lambda>a b. R b a) pre"
    and mem: "set pre \<subseteq> S" "set xs \<subseteq> S"
    and lt: "\<And>a b r. a \<in> S \<Longrightarrow> b \<in> S \<Longrightarrow> cmp a b = Inr r \<Longrightarrow> r < 0 \<Longrightarrow> R a b"
    and ge: "\<And>a b r. a \<in> S \<Longrightarrow> b \<in> S \<Longrightarrow> cmp a b = Inr r \<Longrightarrow> 0 \<le> r \<Longrightarrow> R b a"
    and tr: "\<And>a b c. a \<in> S \<Longrightarrow> b \<in> S \<Longrightarrow> c \<in> S \<Longrightarrow> R a b \<Longrightarrow> R b c \<Longrightarrow> R a c"
  shows "sorted_wrt R ys"
  using run srt mem
proof (induction xs arbitrary: pre)
  case Nil
  then show ?case by (auto simp: sorted_wrt_rev)
next
  case (Cons x xs)
  from Cons.prems(4) have xS: "x \<in> S" and xsS: "set xs \<subseteq> S" by simp_all
  from Cons.prems(1) obtain pre' where s: "insertionStep cmp x pre = Inr pre'"
    and r: "insertionSort cmp pre' xs = Inr ys"
    by (auto split: sum.splits)
  have sp: "set pre' = insert x (set pre)" by (rule insertionStep_set [OF s])
  have "sorted_wrt (\<lambda>a b. R b a) pre'"
    by (rule insertionStep_sorted [OF s Cons.prems(2) xS Cons.prems(3) lt ge tr])
  moreover from sp xS Cons.prems(3) have "set pre' \<subseteq> S" by simp
  ultimately show ?case using Cons.IH [OF r] xsS by blast
qed

lemma SortFunc_sorted:
  assumes run: "SortFunc cmp xs = Inr ys"
    and lt: "\<And>a b r. a \<in> set xs \<Longrightarrow> b \<in> set xs \<Longrightarrow> cmp a b = Inr r \<Longrightarrow> r < 0 \<Longrightarrow> R a b"
    and ge: "\<And>a b r. a \<in> set xs \<Longrightarrow> b \<in> set xs \<Longrightarrow> cmp a b = Inr r \<Longrightarrow> 0 \<le> r \<Longrightarrow> R b a"
    and tr: "\<And>a b c. a \<in> set xs \<Longrightarrow> b \<in> set xs \<Longrightarrow> c \<in> set xs \<Longrightarrow> R a b \<Longrightarrow> R b c \<Longrightarrow> R a c"
  shows "sorted_wrt R ys"
proof -
  from run have "insertionSort cmp [] xs = Inr ys" by (simp add: SortFunc_def)
  moreover have "sorted_wrt (\<lambda>a b. R b a) []" by simp
  moreover have "set [] \<subseteq> set xs" "set xs \<subseteq> set xs" by simp_all
  ultimately show ?thesis
    using lt ge tr by (rule insertionSort_sorted [where S = "set xs"])
qed

lemma insertionStep_total:
  "\<forall>y \<in> set pre. \<exists>r. cmp x y = Inr r \<Longrightarrow> \<exists>zs. insertionStep cmp x pre = Inr zs"
  by (induction pre) (auto split: sum.splits)

lemma insertionSort_total:
  "\<forall>a \<in> set pre \<union> set xs. \<forall>b \<in> set pre \<union> set xs. \<exists>r. cmp a b = Inr r \<Longrightarrow>
   \<exists>ys. insertionSort cmp pre xs = Inr ys"
proof (induction xs arbitrary: pre)
  case Nil
  then show ?case by simp
next
  case (Cons x xs)
  then have "\<forall>y \<in> set pre. \<exists>r. cmp x y = Inr r" by simp
  then have "\<exists>zs. insertionStep cmp x pre = Inr zs" by (rule insertionStep_total)
  then obtain pre' where s: "insertionStep cmp x pre = Inr pre'"
    by blast
  have "set pre' = insert x (set pre)" by (rule insertionStep_set [OF s])
  then have "set pre' \<union> set xs = set pre \<union> set (x # xs)" by auto
  with Cons.prems have "\<forall>a\<in>set pre' \<union> set xs. \<forall>b\<in>set pre' \<union> set xs. \<exists>r. cmp a b = Inr r"
    by simp
  from Cons.IH [OF this] s show ?case by simp
qed

lemma SortFunc_total:
  "\<forall>a \<in> set xs. \<forall>b \<in> set xs. \<exists>r. cmp a b = Inr r \<Longrightarrow> \<exists>ys. SortFunc cmp xs = Inr ys"
  unfolding SortFunc_def by (rule insertionSort_total) simp

lemma sorted_wrt_unique:
  assumes "mset xs = mset ys" and "sorted_wrt R xs" and "sorted_wrt R ys"
    and "\<forall>a \<in> set xs. \<forall>b \<in> set xs. R a b \<longrightarrow> R b a \<longrightarrow> a = b"
  shows "xs = ys"
  using assms
proof (induction xs arbitrary: ys)
  case Nil
  then show ?case by simp
next
  case (Cons x xs)
  from Cons.prems(1) obtain y ys' where ys: "ys = y # ys'" by (cases ys) auto
  have sx: "set (x # xs) = set ys" using Cons.prems(1) by (rule mset_eq_setD)
  have "x = y"
  proof (rule ccontr)
    assume n: "x \<noteq> y"
    with sx ys have "x \<in> set ys'" "y \<in> set xs" by auto
    with Cons.prems(2,3) ys have "R y x" "R x y" by auto
    with Cons.prems(4) n sx ys show False by auto
  qed
  from Cons.prems(1) ys \<open>x = y\<close> have m: "mset xs = mset ys'" by simp
  from Cons.prems(2) have s1: "sorted_wrt R xs" by simp
  from Cons.prems(3) ys have s2: "sorted_wrt R ys'" by simp
  from Cons.prems(4) have a: "\<forall>a\<in>set xs. \<forall>b\<in>set xs. R a b \<longrightarrow> R b a \<longrightarrow> a = b" by simp
  from Cons.IH [OF m s1 s2 a] \<open>x = y\<close> ys show ?case by simp
qed

subsection \<open>Binary search on a slice sorted by name\<close>

lemma sorted_wrt_nth_le:
  "sorted_wrt (\<lambda>a b. f a \<le> f b) x \<Longrightarrow> k \<le> m \<Longrightarrow> m < length x \<Longrightarrow> (f (x ! k) :: string) \<le> f (x ! m)"
  by (cases "k = m") (auto simp: sorted_wrt_iff_nth_less)

lemma bsearchLoop_inv:
  fixes f :: "'a \<Rightarrow> string"
  assumes "sorted_wrt (\<lambda>a b. f a \<le> f b) x"
    and "i \<le> j" and "j \<le> length x"
    and "\<forall>k < i. f (x ! k) < t"
    and "\<forall>k. j \<le> k \<and> k < length x \<longrightarrow> t \<le> f (x ! k)"
  shows "bsearchLoop x t (\<lambda>a b. Compare (f a) b) i j \<le> length x \<and>
     (\<forall>k < bsearchLoop x t (\<lambda>a b. Compare (f a) b) i j. f (x ! k) < t) \<and>
     (\<forall>k. bsearchLoop x t (\<lambda>a b. Compare (f a) b) i j \<le> k \<and> k < length x \<longrightarrow> t \<le> f (x ! k))"
  using assms
proof (induction x t "\<lambda>a b. Compare (f a) b" i j rule: bsearchLoop.induct)
  case (1 x t i j)
  let ?cmp = "\<lambda>a b. Compare (f a) b"
  show ?case
  proof (cases "i < j")
    case False
    with "1.prems" have "i = j" by simp
    with "1.prems" show ?thesis by (simp add: bsearchLoop.simps [of x t ?cmp j j])
  next
    case True
    let ?h = "(i + j) div 2"
    from True have h: "i \<le> ?h" "?h < j" by simp_all
    with "1.prems"(3) have hn: "?h < length x" by simp
    show ?thesis
    proof (cases "f (x ! ?h) < t")
      case lt: True
      then have c: "?cmp (x ! ?h) t < 0" by (simp add: Compare_less_iff)
      have rec: "bsearchLoop x t ?cmp i j = bsearchLoop x t ?cmp (?h + 1) j"
        using True c by (subst bsearchLoop.simps) (simp add: Let_def)
      have below: "\<forall>k < ?h + 1. f (x ! k) < t"
      proof (intro allI impI)
        fix k assume "k < ?h + 1"
        then have "k \<le> ?h" by simp
        from sorted_wrt_nth_le [OF "1.prems"(1) this hn] lt show "f (x ! k) < t" by simp
      qed
      from h have le: "?h + 1 \<le> j" by simp
      from "1.hyps"(1) [OF True refl c "1.prems"(1) le "1.prems"(3) below "1.prems"(5)] rec
      show ?thesis by simp
    next
      case ge: False
      then have c: "\<not> ?cmp (x ! ?h) t < 0" by (simp add: Compare_less_iff)
      have rec: "bsearchLoop x t ?cmp i j = bsearchLoop x t ?cmp i ?h"
        using True c by (subst bsearchLoop.simps) (simp add: Let_def)
      have above: "\<forall>k. ?h \<le> k \<and> k < length x \<longrightarrow> t \<le> f (x ! k)"
      proof (intro allI impI)
        fix k assume k: "?h \<le> k \<and> k < length x"
        then have "f (x ! ?h) \<le> f (x ! k)" using sorted_wrt_nth_le [OF "1.prems"(1), of ?h k] by simp
        with ge show "t \<le> f (x ! k)" by simp
      qed
      from hn have le: "?h \<le> length x" by simp
      from "1.hyps"(2) [OF True refl c "1.prems"(1) h(1) le "1.prems"(4) above] rec
      show ?thesis by simp
    qed
  qed
qed

lemma BinarySearchFunc_found_iff:
  fixes f :: "'a \<Rightarrow> string"
  assumes srt: "sorted_wrt (\<lambda>a b. f a \<le> f b) x"
  shows "snd (BinarySearchFunc x t (\<lambda>a b. Compare (f a) b)) \<longleftrightarrow> t \<in> f ` set x"
proof -
  let ?i = "bsearchLoop x t (\<lambda>a b. Compare (f a) b) 0 (length x)"
  have inv: "?i \<le> length x \<and> (\<forall>k < ?i. f (x ! k) < t) \<and>
             (\<forall>k. ?i \<le> k \<and> k < length x \<longrightarrow> t \<le> f (x ! k))"
    by (rule bsearchLoop_inv [OF srt]) auto
  have found: "snd (BinarySearchFunc x t (\<lambda>a b. Compare (f a) b)) \<longleftrightarrow>
               (?i < length x \<and> f (x ! ?i) = t)"
    by (simp add: BinarySearchFunc_def Let_def Compare_eq_iff)
  show ?thesis
  proof
    assume "snd (BinarySearchFunc x t (\<lambda>a b. Compare (f a) b))"
    with found have "?i < length x" "f (x ! ?i) = t" by simp_all
    then show "t \<in> f ` set x" by (metis imageI nth_mem)
  next
    assume "t \<in> f ` set x"
    then obtain m where m: "m < length x" "f (x ! m) = t" by (auto simp: in_set_conv_nth)
    have "\<not> m < ?i"
    proof
      assume "m < ?i"
      with inv have "f (x ! m) < t" by blast
      with m show False by simp
    qed
    then have im: "?i \<le> m" by simp
    with m have il: "?i < length x" by simp
    from inv il have "t \<le> f (x ! ?i)" by blast
    moreover from sorted_wrt_nth_le [OF srt im m(1)] m have "f (x ! ?i) \<le> t" by simp
    ultimately have "f (x ! ?i) = t" by simp
    with il found show "snd (BinarySearchFunc x t (\<lambda>a b. Compare (f a) b))" by simp
  qed
qed

lemma SortFunc_by_name_sorted:
  fixes f :: "'a \<Rightarrow> string"
  assumes "SortFunc (\<lambda>a b. Inr (Compare (f a) (f b))) xs = Inr ys"
  shows "sorted_wrt (\<lambda>a b. f a \<le> f b) ys"
proof (rule SortFunc_sorted [OF assms])
  fix a b :: 'a and r :: int
  assume "Inr (Compare (f a) (f b)) = (Inr r :: error + int)"
  then have r: "r = Compare (f a) (f b)" by simp
  { assume "r < 0" with r show "f a \<le> f b" using Compare_less_iff [of "f a" "f b"] by simp }
  { assume "0 \<le> r" with r show "f b \<le> f a" using Compare_nonneg_iff [of "f a" "f b"] by simp }
next
  fix a b c :: 'a
  assume "f a \<le> f b" "f b \<le> f c"
  then show "f a \<le> f c" by simp
qed

section \<open>The renamer: exempt, absent and renamed entry points\<close>

lemma renameLoop_map_filter:
  "renameLoop c names =
     map (\<lambda>n. c\<lparr>Name := n @ ''$auto'', CallName := n\<rparr>) (filter (\<lambda>n. \<not> isProhibited n) names)"
  by (induction names) simp_all

text \<open>
  Claim C2.  For a declaration whose entry point is not exempt: when the rename table maps
  the entry point to the names \<open>A\<close> and \<open>B\<close> and neither is prohibited,
  \<open>renameSyscall\<close> returns exactly two declarations, named \<open>A$auto\<close> and \<open>B$auto\<close>, with
  entry points \<open>A\<close> and \<open>B\<close>; and whatever names the table gives, the result holds one
  clone per name that is not prohibited, in table order, so a prohibited name yields no
  clone.
\<close>

theorem renameSyscall_rename_completeness:
  assumes "shouldRenameSyscall (CallName c)"
  shows "(rename (CallName c) = Some [A, B] \<and> \<not> isProhibited A \<and> \<not> isProhibited B \<longrightarrow>
            renameSyscall c rename =
              [c\<lparr>Name := A @ ''$auto'', CallName := A\<rparr>, c\<lparr>Name := B @ ''$auto'', CallName := B\<rparr>]) \<and>
         (\<forall>names. rename (CallName c) = Some names \<longrightarrow>
            renameSyscall c rename =
              map (\<lambda>n. c\<lparr>Name := n @ ''$auto'', CallName := n\<rparr>)
                (filter (\<lambda>n. \<not> isProhibited n) names))"
  using assms by (simp add: renameSyscall_def renameLoop_map_filter)

theorem renameSyscall_rename_completeness_witness:
  "renameSyscall setuid16_call setuid_table =
     [setuid16_call\<lparr>Name := ''setuid$auto'', CallName := ''setuid''\<rparr>,
      setuid16_call\<lparr>Name := ''setuid32$auto'', CallName := ''setuid32''\<rparr>] \<and>
   renameSyscall utimes_call setuid_table =
     [utimes_call\<lparr>Name := ''utimes$auto'', CallName := ''utimes''\<rparr>]"
proof -
  have s1: "shouldRenameSyscall (CallName setuid16_call)"
    by (simp add: shouldRenameSyscall_def setuid16_call_def sendmsg_def)
  have s2: "shouldRenameSyscall (CallName utimes_call)"
    by (simp add: shouldRenameSyscall_def utimes_call_def sendmsg_def)
  have t1: "setuid_table (CallName setuid16_call) = Some [''setuid'', ''setuid32'']"
    by (simp add: setuid_table_def setuid16_call_def)
  have t2: "setuid_table (CallName utimes_call) = Some [''utimes'', ''utimesat'']"
    by (simp add: setuid_table_def utimes_call_def)
  have p: "\<not> isProhibited ''setuid''" "\<not> isProhibited ''setuid32''"
          "\<not> isProhibited ''utimes''" "isProhibited ''utimesat''"
    by (simp_all add: isProhibited_def)
  from renameSyscall_rename_completeness [OF s1, of setuid_table "''setuid''" "''setuid32''"] t1 p
  have a: "renameSyscall setuid16_call setuid_table =
     [setuid16_call\<lparr>Name := ''setuid$auto'', CallName := ''setuid''\<rparr>,
      setuid16_call\<lparr>Name := ''setuid32$auto'', CallName := ''setuid32''\<rparr>]"
    by simp
  from renameSyscall_rename_completeness [OF s2, of setuid_table] t2 p
  have b: "renameSyscall utimes_call setuid_table =
     [utimes_call\<lparr>Name := ''utimes$auto'', CallName := ''utimes''\<rparr>]"
    by simp
  from a b show ?thesis by simp
qed

text \<open>
  Claim C7.  \<open>renameSyscall\<close> returns the declaration itself, as the only element, when
  its entry point is \<open>sendmsg\<close> or \<open>syz_genetlink_get_family_id\<close>; for any other entry
  point that the rename table does not hold it returns no declaration.
\<close>

theorem renameSyscall_exempt_or_absent:
  "(CallName c = sendmsg \<or> CallName c = ''syz_genetlink_get_family_id'' \<longrightarrow>
      renameSyscall c rename = [c]) \<and>
   (CallName c \<noteq> sendmsg \<and> CallName c \<noteq> ''syz_genetlink_get_family_id'' \<and>
      rename (CallName c) = None \<longrightarrow> renameSyscall c rename = [])"
  by (simp add: renameSyscall_def shouldRenameSyscall_def)

theorem renameSyscall_exempt_or_absent_witness:
  "renameSyscall family_id_call setuid_table = [family_id_call] \<and>
   renameSyscall unknown_call setuid_table = []"
proof -
  have a: "CallName family_id_call = ''syz_genetlink_get_family_id''"
    by (simp add: family_id_call_def)
  have b: "CallName unknown_call \<noteq> sendmsg \<and>
           CallName unknown_call \<noteq> ''syz_genetlink_get_family_id'' \<and>
           setuid_table (CallName unknown_call) = None"
    by (simp add: unknown_call_def sendmsg_def setuid_table_def)
  from renameSyscall_exempt_or_absent [of family_id_call setuid_table] a
       renameSyscall_exempt_or_absent [of unknown_call setuid_table] b
  show ?thesis by simp
qed

section \<open>The table reader: failures while walking\<close>

text \<open>
  Claim C8.  A failure of \<^verbatim>\<open>os.Lstat\<close> or \<^verbatim>\<open>os.Open\<close> on a \<^verbatim>\<open>.tbl\<close> file aborts the run and
  no table is returned, but the error handed to \<^verbatim>\<open>tool.Fail\<close> is the callback's
  parameter \<^verbatim>\<open>err\<close>, not the failure \<^verbatim>\<open>fErr\<close>: for a table file that \<^verbatim>\<open>filepath.Walk\<close>
  could stat (so \<^verbatim>\<open>err\<close> is nil) and that cannot be opened, the run aborts printing the nil
  error, and the open failure is not surfaced.
\<close>

theorem readSyscallNames_open_failure_reports_nil:
  "readSyscallNames [unopenable_tbl] = Inl (Fail None)"
  by (simp add: readSyscallNames_def walkFn_def unopenable_tbl_def HasSuffix_def)

lemma walkFn_failure_is_fatal:
  "HasSuffix (path v) ''.tbl'' \<Longrightarrow>
   (\<exists>e. lstat v = Inl e) \<or> (lstat v = Inr False \<and> (\<exists>e. opened v = Inl e)) \<Longrightarrow>
   walkFn rename v = Inl (Fail (walkErr v))"
  by (auto simp: walkFn_def)

lemma walk_stops_at_failure:
  "walk rename vs = Inr r \<Longrightarrow> v \<in> set vs \<Longrightarrow> HasSuffix (path v) ''.tbl'' \<Longrightarrow>
   (\<exists>s. lstat v = Inr s \<and> (s \<or> (\<exists>ls. opened v = Inr ls)))"
proof (induction vs arbitrary: rename)
  case Nil
  then show ?case by simp
next
  case (Cons w ws)
  from Cons.prems(1) obtain r1 where w: "walkFn rename w = Inr r1" and rest: "walk r1 ws = Inr r"
    by (auto split: sum.splits)
  show ?case
  proof (cases "v = w")
    case True
    with w Cons.prems(3) show ?thesis
      by (auto simp: walkFn_def split: sum.splits if_splits)
  next
    case False
    with Cons.prems(2) have "v \<in> set ws" by simp
    from Cons.IH [OF rest this Cons.prems(3)] show ?thesis .
  qed
qed

section \<open>The renamer on the store: clones are independent objects\<close>

lemma renameOne_props:
  assumes al: "allocated h" and d: "deref h p = Some c"
  shows "\<exists>h'. renameOne h p name = Inr (nextAddr h + 1, h') \<and>
     calls h' = (calls h)(nextAddr h + 1 \<mapsto>
                  \<lparr>CName = nextAddr h, CCallName = name, CArgs = Args c, CRet = Ret c\<rparr>) \<and>
     idents h' = (idents h)(nextAddr h \<mapsto> name @ ''$auto'') \<and>
     nextAddr h' = nextAddr h + 2"
proof -
  from d obtain co nm where co: "calls h p = Some co" and nm: "idents h (CName co) = Some nm"
    and c: "c = \<lparr>Name = nm, CallName = CCallName co, Args = CArgs co, Ret = CRet co\<rparr>"
    by (auto simp: deref_def split: option.splits)
  let ?h1 = "h\<lparr>calls := (calls h)(nextAddr h + 1 \<mapsto> co\<lparr>CName := nextAddr h\<rparr>),
               idents := (idents h)(nextAddr h \<mapsto> nm),
               nextAddr := nextAddr h + 2\<rparr>"
  have cl: "Clone h p = Inr (nextAddr h + 1, ?h1)"
    using co nm by (simp add: Clone_def Let_def)
  let ?h2 = "?h1\<lparr>idents := (idents ?h1)(nextAddr h \<mapsto> name @ ''$auto'')\<rparr>"
  have s1: "setNameName ?h1 (nextAddr h + 1) (name @ ''$auto'') = Inr ?h2"
    by (simp add: setNameName_def)
  let ?h3 = "?h2\<lparr>calls := (calls ?h2)(nextAddr h + 1 \<mapsto> (co\<lparr>CName := nextAddr h\<rparr>)\<lparr>CCallName := name\<rparr>)\<rparr>"
  have s2: "setCallName ?h2 (nextAddr h + 1) name = Inr ?h3"
    by (simp add: setCallName_def)
  have r: "renameOne h p name = Inr (nextAddr h + 1, ?h3)"
    unfolding renameOne_def cl using s1 s2 by simp
  have "calls ?h3 = (calls h)(nextAddr h + 1 \<mapsto>
                  \<lparr>CName = nextAddr h, CCallName = name, CArgs = Args c, CRet = Ret c\<rparr>)"
    using c by (cases co) simp
  moreover have "idents ?h3 = (idents h)(nextAddr h \<mapsto> name @ ''$auto'')" by simp
  moreover have "nextAddr ?h3 = nextAddr h + 2" by simp
  ultimately show ?thesis using r by blast
qed

lemma renameLoopSt_props:
  assumes "allocated h" and "deref h p = Some c"
  shows "\<exists>renamed h'. renameLoopSt h p names = Inr (renamed, h') \<and>
     allocated h' \<and> nextAddr h \<le> nextAddr h' \<and>
     (\<forall>a \<in> dom (calls h). calls h' a = calls h a) \<and>
     (\<forall>a \<in> dom (idents h). idents h' a = idents h a) \<and>
     (\<forall>q \<in> set renamed. nextAddr h \<le> q \<and> q < nextAddr h') \<and>
     (\<forall>q \<in> set renamed. \<exists>co. calls h' q = Some co \<and> nextAddr h \<le> CName co \<and> CName co < nextAddr h') \<and>
     distinct renamed \<and>
     distinct (map (\<lambda>q. CName (the (calls h' q))) renamed) \<and>
     map (deref h') renamed = map Some (renameLoop c names)"
  using assms
proof (induction names arbitrary: h)
  case Nil
  then show ?case by simp
next
  case (Cons name names)
  show ?case
  proof (cases "isProhibited name")
    case True
    with Cons.IH [OF Cons.prems] show ?thesis by simp
  next
    case False
    let ?q = "nextAddr h + 1"
    let ?i = "nextAddr h"
    from renameOne_props [OF Cons.prems, of name] obtain h3 where
      one: "renameOne h p name = Inr (?q, h3)" and
      c3: "calls h3 = (calls h)(?q \<mapsto> \<lparr>CName = ?i, CCallName = name, CArgs = Args c, CRet = Ret c\<rparr>)" and
      i3: "idents h3 = (idents h)(?i \<mapsto> name @ ''$auto'')" and
      n3: "nextAddr h3 = nextAddr h + 2" by blast
    from Cons.prems(1) have fresh_c: "\<forall>a \<in> dom (calls h). a < ?i" and fresh_i: "\<forall>a \<in> dom (idents h). a < ?i"
      by (simp_all add: allocated_def)
    have lt_c: "a < nextAddr h" if "a \<in> dom (calls h)" for a
      using fresh_c that by (rule bspec)
    have lt_i: "a < nextAddr h" if "a \<in> dom (idents h)" for a
      using fresh_i that by (rule bspec)
    have wc: "a < nextAddr h + 2" if "a \<in> dom (calls h)" for a
      using lt_c [OF that] by simp
    have wi: "a < nextAddr h + 2" if "a \<in> dom (idents h)" for a
      using lt_i [OF that] by simp
    have al3: "allocated h3"
      unfolding allocated_def c3 i3 n3 using wc wi by auto
    from Cons.prems(2) obtain co nm where co: "calls h p = Some co" and nm: "idents h (CName co) = Some nm"
      by (auto simp: deref_def split: option.splits)
    from co have "p \<in> dom (calls h)" by (rule domI)
    from lt_c [OF this] have pq: "p \<noteq> ?q" by simp
    from nm have "CName co \<in> dom (idents h)" by (rule domI)
    from lt_i [OF this] have ni: "CName co \<noteq> ?i" by simp
    have d3: "deref h3 p = Some c"
      using Cons.prems(2) co nm pq ni by (simp add: deref_def c3 i3)
    from Cons.IH [OF al3 d3] obtain renamed h' where
      rec: "renameLoopSt h3 p names = Inr (renamed, h')" and
      al': "allocated h'" and le': "nextAddr h3 \<le> nextAddr h'" and
      fc: "\<forall>a \<in> dom (calls h3). calls h' a = calls h3 a" and
      fi: "\<forall>a \<in> dom (idents h3). idents h' a = idents h3 a" and
      rng: "\<forall>q \<in> set renamed. nextAddr h3 \<le> q \<and> q < nextAddr h'" and
      irng: "\<forall>q \<in> set renamed. \<exists>co. calls h' q = Some co \<and> nextAddr h3 \<le> CName co \<and> CName co < nextAddr h'" and
      dr: "distinct renamed" and
      di: "distinct (map (\<lambda>q. CName (the (calls h' q))) renamed)" and
      vals: "map (deref h') renamed = map Some (renameLoop c names)" by blast
    have run: "renameLoopSt h p (name # names) = Inr (?q # renamed, h')"
      using False one rec by simp
    have cq: "calls h' ?q = Some \<lparr>CName = ?i, CCallName = name, CArgs = Args c, CRet = Ret c\<rparr>"
      using fc c3 by simp
    have iq: "idents h' ?i = Some (name @ ''$auto'')"
      using fi i3 by simp
    have dq: "deref h' ?q = Some (c\<lparr>Name := name @ ''$auto'', CallName := name\<rparr>)"
      using cq iq by (simp add: deref_def)
    have frame_c: "\<forall>a \<in> dom (calls h). calls h' a = calls h a"
    proof
      fix a assume a: "a \<in> dom (calls h)"
      from lt_c [OF a] have "a \<noteq> ?q" by simp
      with a c3 have "a \<in> dom (calls h3)" "calls h3 a = calls h a" by auto
      with fc show "calls h' a = calls h a" by simp
    qed
    have frame_i: "\<forall>a \<in> dom (idents h). idents h' a = idents h a"
    proof
      fix a assume a: "a \<in> dom (idents h)"
      from lt_i [OF a] have "a \<noteq> ?i" by simp
      with a i3 have "a \<in> dom (idents h3)" "idents h3 a = idents h a" by auto
      with fi show "idents h' a = idents h a" by simp
    qed
    have rng': "\<forall>q \<in> set (?q # renamed). nextAddr h \<le> q \<and> q < nextAddr h'"
      using rng le' n3 by auto
    have irng': "\<forall>q \<in> set (?q # renamed). \<exists>co. calls h' q = Some co \<and> nextAddr h \<le> CName co \<and> CName co < nextAddr h'"
      using irng cq le' n3 by auto
    have dr': "distinct (?q # renamed)"
      using dr rng n3 by auto
    have "?i \<notin> (\<lambda>q. CName (the (calls h' q))) ` set renamed"
    proof
      assume "?i \<in> (\<lambda>q. CName (the (calls h' q))) ` set renamed"
      then obtain q where q: "q \<in> set renamed" "?i = CName (the (calls h' q))" by blast
      with irng obtain co' where "calls h' q = Some co'" "nextAddr h3 \<le> CName co'" by blast
      with q n3 show False by simp
    qed
    with di cq have di': "distinct (map (\<lambda>q. CName (the (calls h' q))) (?q # renamed))"
      by simp
    have vals': "map (deref h') (?q # renamed) = map Some (renameLoop c (name # names))"
      using False dq vals by simp
    from le' n3 have le: "nextAddr h \<le> nextAddr h'" by simp
    from run al' le frame_c frame_i rng' irng' dr' di' vals' show ?thesis by blast
  qed
qed

lemma setuid16_store_ok:
  "allocated setuid16_store" "deref setuid16_store 1 = Some setuid16_call"
  by (simp_all add: allocated_def setuid16_store_def deref_def setuid16_call_def)

text \<open>
  Claim C9.  Let \<open>syscall\<close> point to a declaration \<open>c\<close> whose entry point is not exempt and
  has an entry \<open>names\<close> in the rename table.  Then \<open>renameSyscall\<close> returns, and
  \<^item> the returned pointers stand for the declarations \<open>c\<close> with exposed name \<open>n$auto\<close> and
    entry point \<open>n\<close>, for the names \<open>n\<close> that are not prohibited: no other field differs
    from \<open>c\<close>, and these are the values of the renamer on values;
  \<^item> \<open>syscall\<close> still stands for \<open>c\<close>, and no \<^verbatim>\<open>Call\<close> or \<^verbatim>\<open>Ident\<close> object that existed
    before the call has changed;
  \<^item> the returned \<^verbatim>\<open>Call\<close> objects are pairwise different and new, and so are the
    \<^verbatim>\<open>Ident\<close> objects their names point to: no two copies share an object, and none
    shares one with the input.
\<close>

theorem renameSyscall_clones_independent:
  assumes "allocated h" and "deref h syscall = Some c"
    and "shouldRenameSyscall (CallName c)" and "rename (CallName c) = Some names"
  shows "\<exists>renamed h'. renameSyscallSt h syscall rename = Inr (renamed, h') \<and>
     map (deref h') renamed =
       map (\<lambda>n. Some (c\<lparr>Name := n @ ''$auto'', CallName := n\<rparr>))
         (filter (\<lambda>n. \<not> isProhibited n) names) \<and>
     map (deref h') renamed = map Some (renameSyscall c rename) \<and>
     deref h' syscall = Some c \<and>
     (\<forall>a \<in> dom (calls h). calls h' a = calls h a) \<and>
     (\<forall>a \<in> dom (idents h). idents h' a = idents h a) \<and>
     distinct renamed \<and> set renamed \<inter> dom (calls h) = {} \<and>
     distinct (map (\<lambda>q. CName (the (calls h' q))) renamed) \<and>
     (\<lambda>q. CName (the (calls h' q))) ` set renamed \<inter> dom (idents h) = {}"
proof -
  from assms(2) obtain co nm where co: "calls h syscall = Some co"
    and nm: "idents h (CName co) = Some nm"
    and c: "c = \<lparr>Name = nm, CallName = CCallName co, Args = CArgs co, Ret = CRet co\<rparr>"
    by (auto simp: deref_def split: option.splits)
  from c have cn: "CCallName co = CallName c" by simp
  from renameLoopSt_props [OF assms(1,2), of names] obtain renamed h' where
    run: "renameLoopSt h syscall names = Inr (renamed, h')" and
    fc: "\<forall>a \<in> dom (calls h). calls h' a = calls h a" and
    fi: "\<forall>a \<in> dom (idents h). idents h' a = idents h a" and
    rng: "\<forall>q \<in> set renamed. nextAddr h \<le> q \<and> q < nextAddr h'" and
    irng: "\<forall>q \<in> set renamed. \<exists>co. calls h' q = Some co \<and> nextAddr h \<le> CName co \<and> CName co < nextAddr h'" and
    dr: "distinct renamed" and
    di: "distinct (map (\<lambda>q. CName (the (calls h' q))) renamed)" and
    vals: "map (deref h') renamed = map Some (renameLoop c names)" by blast
  have r: "renameSyscallSt h syscall rename = Inr (renamed, h')"
    using co cn assms(3,4) run by (simp add: renameSyscallSt_def)
  have v1: "map (deref h') renamed =
       map (\<lambda>n. Some (c\<lparr>Name := n @ ''$auto'', CallName := n\<rparr>))
         (filter (\<lambda>n. \<not> isProhibited n) names)"
    unfolding vals by (simp add: renameLoop_map_filter comp_def)
  have v2: "map (deref h') renamed = map Some (renameSyscall c rename)"
    unfolding vals using assms(3,4) by (simp add: renameSyscall_def)
  from co have "syscall \<in> dom (calls h)" by (rule domI)
  with fc have c': "calls h' syscall = calls h syscall" by (rule bspec)
  from nm have "CName co \<in> dom (idents h)" by (rule domI)
  with fi have i': "idents h' (CName co) = idents h (CName co)" by (rule bspec)
  have same: "deref h' syscall = Some c"
    using assms(2) co c' i' by (simp add: deref_def)
  from assms(1) have fresh_c: "\<forall>a \<in> dom (calls h). a < nextAddr h"
    and fresh_i: "\<forall>a \<in> dom (idents h). a < nextAddr h" by (simp_all add: allocated_def)
  have disj_c: "set renamed \<inter> dom (calls h) = {}"
  proof (rule ccontr)
    assume "set renamed \<inter> dom (calls h) \<noteq> {}"
    then obtain q where q: "q \<in> set renamed" "q \<in> dom (calls h)" by blast
    from fresh_c q(2) have "q < nextAddr h" by (rule bspec)
    moreover from rng q(1) have "nextAddr h \<le> q" by blast
    ultimately show False by simp
  qed
  have disj_i: "(\<lambda>q. CName (the (calls h' q))) ` set renamed \<inter> dom (idents h) = {}"
  proof (rule ccontr)
    assume "(\<lambda>q. CName (the (calls h' q))) ` set renamed \<inter> dom (idents h) \<noteq> {}"
    then obtain q where q: "q \<in> set renamed" "CName (the (calls h' q)) \<in> dom (idents h)" by blast
    from fresh_i q(2) have "CName (the (calls h' q)) < nextAddr h" by (rule bspec)
    moreover from irng q(1) obtain co' where "calls h' q = Some co'" "nextAddr h \<le> CName co'" by blast
    ultimately show False by simp
  qed
  from r v1 v2 same fc fi dr disj_c di disj_i show ?thesis by blast
qed

theorem renameSyscall_clones_independent_witness:
  "\<exists>renamed h'. renameSyscallSt setuid16_store 1 setuid_table = Inr (renamed, h') \<and>
     map (deref h') renamed =
       map (\<lambda>n. Some (setuid16_call\<lparr>Name := n @ ''$auto'', CallName := n\<rparr>))
         (filter (\<lambda>n. \<not> isProhibited n) [''setuid'', ''setuid32'']) \<and>
     map (deref h') renamed = map Some (renameSyscall setuid16_call setuid_table) \<and>
     deref h' 1 = Some setuid16_call \<and>
     (\<forall>a \<in> dom (calls setuid16_store). calls h' a = calls setuid16_store a) \<and>
     (\<forall>a \<in> dom (idents setuid16_store). idents h' a = idents setuid16_store a) \<and>
     distinct renamed \<and> set renamed \<inter> dom (calls setuid16_store) = {} \<and>
     distinct (map (\<lambda>q. CName (the (calls h' q))) renamed) \<and>
     (\<lambda>q. CName (the (calls h' q))) ` set renamed \<inter> dom (idents setuid16_store) = {}"
proof (rule renameSyscall_clones_independent [OF setuid16_store_ok])
  show "shouldRenameSyscall (CallName setuid16_call)"
    by (simp add: shouldRenameSyscall_def setuid16_call_def sendmsg_def)
  show "setuid_table (CallName setuid16_call) = Some [''setuid'', ''setuid32'']"
    by (simp add: setuid_table_def setuid16_call_def)
qed

text \<open>The store after renaming the example: two new calls, two new names.\<close>

lemma setuid16_store_run:
  "renameSyscallSt setuid16_store 1 setuid_table =
     Inr ([3, 5],
       \<lparr>calls = [1 \<mapsto> \<lparr>CName = 0, CCallName = ''setuid16'',
                          CArgs = [\<lparr>FName = ''uid'', FType = Type ''old_uid_t'' []\<rparr>], CRet = None\<rparr>,
                  3 \<mapsto> \<lparr>CName = 2, CCallName = ''setuid'',
                          CArgs = [\<lparr>FName = ''uid'', FType = Type ''old_uid_t'' []\<rparr>], CRet = None\<rparr>,
                  5 \<mapsto> \<lparr>CName = 4, CCallName = ''setuid32'',
                          CArgs = [\<lparr>FName = ''uid'', FType = Type ''old_uid_t'' []\<rparr>], CRet = None\<rparr>],
        idents = [0 \<mapsto> ''setuid16'', 2 \<mapsto> ''setuid$auto'', 4 \<mapsto> ''setuid32$auto''],
        nextAddr = 6\<rparr>)"
  by (simp add: renameSyscallSt_def setuid16_store_def setuid_table_def shouldRenameSyscall_def
      sendmsg_def isProhibited_def renameOne_def Clone_def setNameName_def setCallName_def Let_def)

section \<open>When the merge and the assembly return\<close>

lemma policy_of_shape:
  "policyShape c \<Longrightarrow> policy c = Inr (Ident (TArgs (TArgs (FType (Args c ! 1)) ! 1) ! 1))"
  by (simp add: policyShape_def policy_def idx_def)

lemma policy_Inr_shape: "policy c = Inr p \<Longrightarrow> policyShape c"
  by (auto simp: policyShape_def policy_def idx_def split: if_splits sum.splits)

lemma addSendmsgNo_elem:
  "c \<in> set (addSendmsgNo n xs) \<Longrightarrow>
   \<exists>c0 \<in> set xs. CallName c = CallName c0 \<and> Args c = Args c0 \<and> Ret c = Ret c0"
  by (induction xs arbitrary: n) (auto split: if_splits)

lemma compactFrom_subset: "set (compactFrom eq prev xs) \<subseteq> set xs"
  by (induction xs arbitrary: prev) auto

lemma CompactFunc_subset: "set (CompactFunc eq xs) \<subseteq> set xs"
  using compactFrom_subset [of eq] by (cases xs) auto

lemma syscallLoop_total:
  "\<forall>c \<in> set xs. CallName c = sendmsg \<longrightarrow> policyShape c \<Longrightarrow>
   \<exists>r. syscallLoop netlinks xs st = Inr r"
proof (induction xs arbitrary: st)
  case Nil
  then show ?case by simp
next
  case (Cons c cs)
  obtain desc used where st: "st = (desc, used)" by (cases st)
  from Cons.prems have rest: "\<forall>c \<in> set cs. CallName c = sendmsg \<longrightarrow> policyShape c" by simp
  show ?case
  proof (cases "CallName c = sendmsg")
    case True
    with Cons.prems have sh: "policyShape c" by simp
    then have i: "idx (Args c) 1 = Inr (Args c ! 1)" by (simp add: policyShape_def idx_def)
    from sh True i st Cons.IH [OF rest] show ?thesis
      by (simp add: policy_of_shape)
  next
    case False
    with st Cons.IH [OF rest] show ?thesis by simp
  qed
qed

lemma syscallCmp_total:
  assumes "CallName a = sendmsg \<longrightarrow> Name a = Name b \<longrightarrow> policyShape a \<and> policyShape b"
  shows "\<exists>r. syscallCmp a b = Inr r"
  using assms by (auto simp: syscallCmp_def Let_def Compare_eq_iff policy_of_shape)

lemma mergeSyscalls_total:
  assumes "\<forall>c \<in> set syscalls.
             CallName c = sendmsg \<or> (\<exists>s \<in> set syscalls. CallName s = sendmsg \<and> Name s = Name c)
             \<longrightarrow> policyShape c"
  shows "\<exists>final. mergeSyscalls syscalls = Inr final \<and>
           (\<forall>c \<in> set final. CallName c = sendmsg \<longrightarrow> policyShape c)"
proof -
  have send: "policyShape c" if "c \<in> set syscalls" "CallName c = sendmsg" for c
    using assms that by blast
  have shared: "policyShape c"
    if "c \<in> set syscalls" "s \<in> set syscalls" "CallName s = sendmsg" "Name s = Name c" for c s
  proof -
    from that(2,3,4) have "\<exists>s \<in> set syscalls. CallName s = sendmsg \<and> Name s = Name c" by blast
    with assms that(1) show ?thesis by blast
  qed
  have "\<forall>a \<in> set syscalls. \<forall>b \<in> set syscalls. \<exists>r. syscallCmp a b = Inr r"
  proof (intro ballI)
    fix a b assume a: "a \<in> set syscalls" and b: "b \<in> set syscalls"
    show "\<exists>r. syscallCmp a b = Inr r"
    proof (rule syscallCmp_total, intro impI)
      assume s: "CallName a = sendmsg" and n: "Name a = Name b"
      have "policyShape a" by (rule send [OF a s])
      moreover have "policyShape b" by (rule shared [OF b a s n])
      ultimately show "policyShape a \<and> policyShape b" ..
    qed
  qed
  then have "\<exists>ys. SortFunc syscallCmp syscalls = Inr ys" by (rule SortFunc_total)
  then obtain srt where srt: "SortFunc syscallCmp syscalls = Inr srt" ..
  then have set: "set srt = set syscalls" by (rule SortFunc_set)
  let ?final = "CompactFunc (\<lambda>a b. Name a = Name b) (addSendmsgNo 0 srt)"
  have "\<forall>c \<in> set ?final. CallName c = sendmsg \<longrightarrow> policyShape c"
  proof (intro ballI impI)
    fix c assume c: "c \<in> set ?final" and s: "CallName c = sendmsg"
    have "set ?final \<subseteq> set (addSendmsgNo 0 srt)" by (rule CompactFunc_subset)
    with c have "c \<in> set (addSendmsgNo 0 srt)" by (rule rev_subsetD)
    then have "\<exists>c0 \<in> set srt. CallName c = CallName c0 \<and> Args c = Args c0 \<and> Ret c = Ret c0"
      by (rule addSendmsgNo_elem)
    then obtain c0 where c0: "c0 \<in> set srt" "CallName c = CallName c0" "Args c = Args c0"
      by blast
    from c0(1) set have "c0 \<in> set syscalls" by simp
    moreover from c0(2) s have "CallName c0 = sendmsg" by simp
    ultimately have "policyShape c0" by (rule send)
    with c0(3) show "policyShape c" by (simp add: policyShape_def)
  qed
  with srt show ?thesis by (simp add: mergeSyscalls_def)
qed

lemma SortFunc_total_cmp:
  "(\<And>a b. \<exists>r. cmp a b = Inr r) \<Longrightarrow> \<exists>ys. SortFunc cmp xs = Inr ys"
  by (rule SortFunc_total) simp

lemma assembleDesc_returns:
  assumes "\<forall>c \<in> set syscalls.
             CallName c = sendmsg \<or> (\<exists>s \<in> set syscalls. CallName s = sendmsg \<and> Name s = Name c)
             \<longrightarrow> policyShape c"
  shows "(\<exists>final. mergeSyscalls syscalls = Inr final) \<and>
         (\<exists>desc. assembleDesc incs syscalls netlinks types resources = Inr desc)"
proof -
  from mergeSyscalls_total [OF assms] obtain final where
    m: "mergeSyscalls syscalls = Inr final" and
    sh: "\<forall>c \<in> set final. CallName c = sendmsg \<longrightarrow> policyShape c" by blast
  obtain incs1 where i: "mergeIncludes incs = Inr incs1"
    using SortFunc_total_cmp [of includeCmp incs]
    by (auto simp: mergeIncludes_def includeCmp_def)
  obtain n1 where n: "SortFunc structCmp netlinks = Inr n1"
    using SortFunc_total_cmp [of structCmp netlinks] by (auto simp: structCmp_def)
  obtain r1 where r: "SortFunc resourceCmp resources = Inr r1"
    using SortFunc_total_cmp [of resourceCmp resources] by (auto simp: resourceCmp_def)
  obtain t1 where t: "SortFunc typedefCmp types = Inr t1"
    using SortFunc_total_cmp [of typedefCmp types] by (auto simp: typedefCmp_def)
  let ?desc0 = "[DParsed (autoGeneratedNotice @ commonKernelHeaders)]
                  @ map (\<lambda>n. DNode (NInclude n)) incs1
                  @ map (\<lambda>n. DNode (NResource n)) r1
                  @ map (\<lambda>n. DNode (NTypeDef n)) t1"
  from syscallLoop_total [OF sh] obtain d1 u1 where
    l: "syscallLoop n1 final (?desc0, {}) = Inr (d1, u1)" by (metis surj_pair)
  from m i n r t l have "\<exists>desc. assembleDesc incs syscalls netlinks types resources = Inr desc"
    by (simp add: assembleDesc_def Let_def split: prod.splits)
  with m show ?thesis by blast
qed

section \<open>The assembled description\<close>

lemma netlinkLoop_result:
  "netlinkLoop used xs (desc, names) =
     (desc @ map (\<lambda>s. DNode (NStruct s)) xs, names @ filter (\<lambda>n. n \<notin> used) (map SName xs))"
  by (induction xs arbitrary: desc names) simp_all

lemma syscallLoop_result:
  assumes srt: "sorted_wrt (\<lambda>a b. SName a \<le> SName b) netlinks"
  shows "syscallLoop netlinks xs (desc, used) = Inr (desc', used') \<Longrightarrow>
     desc' = desc @ map (\<lambda>c. DNode (NCall c))
               (filter (\<lambda>c. policyQualified c \<longrightarrow> (\<exists>p. policy c = Inr p \<and> p \<in> SName ` set netlinks)) xs) \<and>
     used' = used \<union> {p. \<exists>c \<in> set xs. policyQualified c \<and> policy c = Inr p}"
proof (induction xs arbitrary: desc used)
  case Nil
  then show ?case by simp
next
  case (Cons c cs)
  let ?keep = "\<lambda>c. policyQualified c \<longrightarrow> (\<exists>p. policy c = Inr p \<and> p \<in> SName ` set netlinks)"
  show ?case
  proof (cases "policyQualified c")
    case False
    have step: "syscallLoop netlinks (c # cs) (desc, used) =
                syscallLoop netlinks cs (desc @ [DNode (NCall c)], used)"
    proof (cases "CallName c = sendmsg")
      case True
      with Cons.prems obtain f where f: "idx (Args c) 1 = Inr f" by (auto split: sum.splits)
      then have "f = Args c ! 1" by (auto simp: idx_def split: if_splits)
      with False True have "length (TArgs (FType f)) \<noteq> 2" by (simp add: policyQualified_def)
      with True f show ?thesis by simp
    next
      case False
      then show ?thesis by simp
    qed
    with Cons.prems have "syscallLoop netlinks cs (desc @ [DNode (NCall c)], used) = Inr (desc', used')"
      by simp
    from Cons.IH [OF this] False show ?thesis by auto
  next
    case True
    then have s: "CallName c = sendmsg" and l: "length (TArgs (FType (Args c ! 1))) = 2"
      by (simp_all add: policyQualified_def)
    from s Cons.prems obtain f where f: "idx (Args c) 1 = Inr f" by (auto split: sum.splits)
    then have fe: "f = Args c ! 1" by (auto simp: idx_def split: if_splits)
    from s f fe l Cons.prems obtain p where p: "policy c = Inr p" by (auto split: sum.splits)
    have found: "snd (BinarySearchFunc netlinks p (\<lambda>a b. Compare (SName a) b)) \<longleftrightarrow> p \<in> SName ` set netlinks"
      by (rule BinarySearchFunc_found_iff [OF srt])
    show ?thesis
    proof (cases "p \<in> SName ` set netlinks")
      case in_names: True
      with s f fe l p found Cons.prems
      have "syscallLoop netlinks cs (desc @ [DNode (NCall c)], insert p used) = Inr (desc', used')"
        by simp
      from Cons.IH [OF this] True p in_names show ?thesis by auto
    next
      case not_in: False
      with s f fe l p found Cons.prems
      have "syscallLoop netlinks cs (desc, insert p used) = Inr (desc', used')"
        by simp
      from Cons.IH [OF this] True p not_in show ?thesis by auto
    qed
  qed
qed

lemma assembleDesc_shape:
  assumes "assembleDesc incs syscalls netlinks types resources = Inr desc"
  shows "\<exists>incs1 final netlinks1 resources1 types1.
     mergeIncludes incs = Inr incs1 \<and> mergeSyscalls syscalls = Inr final \<and>
     SortFunc structCmp netlinks = Inr netlinks1 \<and>
     SortFunc resourceCmp resources = Inr resources1 \<and>
     SortFunc typedefCmp types = Inr types1 \<and>
     desc = [DParsed (autoGeneratedNotice @ commonKernelHeaders)]
            @ map (\<lambda>n. DNode (NInclude n)) incs1
            @ map (\<lambda>n. DNode (NResource n)) resources1
            @ map (\<lambda>n. DNode (NTypeDef n)) types1
            @ map (\<lambda>c. DNode (NCall c))
                (filter (\<lambda>c. policyQualified c \<longrightarrow> (\<exists>p. policy c = Inr p \<and> p \<in> SName ` set netlinks)) final)
            @ [DParsed mmap2]
            @ map (\<lambda>s. DNode (NStruct s)) netlinks1
            @ [DParsed (netlinkUnionHead @
                 concat (formatArms 0
                   (filter (\<lambda>n. n \<notin> {p. \<exists>c \<in> set final. policyQualified c \<and> policy c = Inr p})
                      (map SName netlinks1))) @ '']'')]"
proof -
  from assms obtain incs1 where i: "mergeIncludes incs = Inr incs1"
    by (auto simp: assembleDesc_def split: sum.splits)
  from assms i obtain final where m: "mergeSyscalls syscalls = Inr final"
    by (auto simp: assembleDesc_def split: sum.splits)
  from assms i m obtain n1 where n: "SortFunc structCmp netlinks = Inr n1"
    by (auto simp: assembleDesc_def split: sum.splits)
  from assms i m n obtain r1 where r: "SortFunc resourceCmp resources = Inr r1"
    by (auto simp: assembleDesc_def split: sum.splits)
  from assms i m n r obtain t1 where t: "SortFunc typedefCmp types = Inr t1"
    by (auto simp: assembleDesc_def split: sum.splits)
  let ?desc0 = "[DParsed (autoGeneratedNotice @ commonKernelHeaders)]
                  @ map (\<lambda>n. DNode (NInclude n)) incs1
                  @ map (\<lambda>n. DNode (NResource n)) r1
                  @ map (\<lambda>n. DNode (NTypeDef n)) t1"
  from assms i m n r t obtain d1 u1 where l: "syscallLoop n1 final (?desc0, {}) = Inr (d1, u1)"
    by (auto simp: assembleDesc_def Let_def split: sum.splits)
  have srt: "sorted_wrt (\<lambda>a b. SName a \<le> SName b) n1"
    using n unfolding structCmp_def by (rule SortFunc_by_name_sorted)
  have sn: "set n1 = set netlinks" using n by (rule SortFunc_set)
  from syscallLoop_result [OF srt l] sn
  have d1: "d1 = ?desc0 @ map (\<lambda>c. DNode (NCall c))
               (filter (\<lambda>c. policyQualified c \<longrightarrow> (\<exists>p. policy c = Inr p \<and> p \<in> SName ` set netlinks)) final)"
    and u1: "u1 = {p. \<exists>c \<in> set final. policyQualified c \<and> policy c = Inr p}"
    by simp_all
  from assms i m n r t l have
    "desc = fst (netlinkLoop u1 n1 (d1 @ [DParsed mmap2], [])) @
       [DParsed (netlinkUnionHead @ concat (formatArms 0 (snd (netlinkLoop u1 n1 (d1 @ [DParsed mmap2], [])))) @ '']'')]"
    by (simp add: assembleDesc_def Let_def split: prod.splits)
  then have "desc = d1 @ [DParsed mmap2] @ map (\<lambda>s. DNode (NStruct s)) n1 @
       [DParsed (netlinkUnionHead @ concat (formatArms 0 (filter (\<lambda>n. n \<notin> u1) (map SName n1))) @ '']'')]"
    by (simp add: netlinkLoop_result)
  with d1 u1 i m n r t show ?thesis by simp
qed

lemma formatArms_enumerate:
  "formatArms i names = map (\<lambda>(k, n). unionArm k n) (enumerate i names)"
  by (induction names arbitrary: i) simp_all

lemma call_in_desc:
  assumes "assembleDesc incs syscalls netlinks types resources = Inr desc"
    and "mergeSyscalls syscalls = Inr final"
  shows "DNode (NCall node) \<in> set desc \<longleftrightarrow>
     node \<in> set final \<and> (policyQualified node \<longrightarrow> (\<exists>p. policy node = Inr p \<and> p \<in> SName ` set netlinks))"
proof -
  from assembleDesc_shape [OF assms(1)] assms(2) obtain incs1 netlinks1 resources1 types1 u where
    "desc = [DParsed (autoGeneratedNotice @ commonKernelHeaders)]
            @ map (\<lambda>n. DNode (NInclude n)) incs1
            @ map (\<lambda>n. DNode (NResource n)) resources1
            @ map (\<lambda>n. DNode (NTypeDef n)) types1
            @ map (\<lambda>c. DNode (NCall c))
                (filter (\<lambda>c. policyQualified c \<longrightarrow> (\<exists>p. policy c = Inr p \<and> p \<in> SName ` set netlinks)) final)
            @ [DParsed mmap2]
            @ map (\<lambda>s. DNode (NStruct s)) netlinks1
            @ [DParsed u]"
    by auto
  then show ?thesis by auto
qed

lemma ex_mergeSyscalls: "mergeSyscalls ex_syscalls = Inr ex_final"
  by code_simp

lemma ex_assembleDesc: "assembleDesc [] ex_syscalls ex_netlinks [] [] = Inr ex_desc"
  by code_simp

text \<open>
  Claim C6.  Take a send declaration of the finalized syscall list whose message-type
  argument has the two-argument policy-qualified shape, and let \<open>p\<close> be the policy name
  it refers to.  It is among the nodes of the assembled description exactly when \<open>p\<close> is
  the name of one of the collected netlink structs: a dangling reference drops the
  declaration, a defined one keeps it.
\<close>

theorem dangling_policy_drop:
  assumes "assembleDesc incs syscalls netlinks types resources = Inr desc"
    and "mergeSyscalls syscalls = Inr final"
    and "node \<in> set final" and "policyQualified node" and "policy node = Inr p"
  shows "DNode (NCall node) \<in> set desc \<longleftrightarrow> p \<in> SName ` set netlinks"
  using call_in_desc [OF assms(1,2), of node] assms(3,4,5) by simp

theorem dangling_policy_drop_witness:
  "DNode (NCall (send_call ''sendmsg$auto0'' ''pol1'')) \<in> set ex_desc \<and>
   DNode (NCall (send_call ''sendmsg$auto1'' ''pol9'')) \<notin> set ex_desc"
proof -
  have q: "policyQualified (send_call n p)" "policy (send_call n p) = Inr p" for n p
    by (simp_all add: policyQualified_def send_call_def msg_type_def sendmsg_def policy_def idx_def)
  have m: "send_call ''sendmsg$auto0'' ''pol1'' \<in> set ex_final"
          "send_call ''sendmsg$auto1'' ''pol9'' \<in> set ex_final"
    by (simp_all add: ex_final_def)
  have n: "''pol1'' \<in> SName ` set ex_netlinks" "''pol9'' \<notin> SName ` set ex_netlinks"
    by (simp_all add: ex_netlinks_def)
  from dangling_policy_drop [OF ex_assembleDesc ex_mergeSyscalls m(1) q] n(1)
  have "DNode (NCall (send_call ''sendmsg$auto0'' ''pol1'')) \<in> set ex_desc" by simp
  moreover from dangling_policy_drop [OF ex_assembleDesc ex_mergeSyscalls m(2) q] n(2)
  have "DNode (NCall (send_call ''sendmsg$auto1'' ''pol9'')) \<notin> set ex_desc" by simp
  ultimately show ?thesis by simp
qed

text \<open>
  Claim C5.  The last part of the assembled description is the parsed union text.  After
  its head come the arms, one line for each position \<open>i\<close> and name \<open>n\<close> of a list
  \<open>names\<close>: a tab, \<^verbatim>\<open>policy\<close> and the decimal index \<open>i\<close>, a space, \<^verbatim>\<open>msghdr_auto[\<close>, the
  name \<open>n\<close>, \<^verbatim>\<open>]\<close> and a line feed; then the closing bracket.  As a multiset, \<open>names\<close>
  holds the name of every collected netlink struct that no send declaration of the
  two-argument policy-qualified shape in the output refers to, once per such struct, and
  no name that such a declaration of the output refers to.
\<close>

theorem union_completeness:
  assumes "assembleDesc incs syscalls netlinks types resources = Inr desc"
  shows "\<exists>names.
     last desc = DParsed (netlinkUnionHead @
                   concat (map (\<lambda>(i, n). [CHR 0x09] @ ''policy'' @ Itoa i @ '' msghdr_auto['' @ n @ '']'' @ [CHR 0x0A])
                             (enumerate 0 names)) @ '']'') \<and>
     mset names =
       filter_mset
         (\<lambda>n. \<not> (\<exists>node. DNode (NCall node) \<in> set desc \<and> policyQualified node \<and> policy node = Inr n))
         (image_mset SName (mset netlinks))"
proof -
  from assembleDesc_shape [OF assms] obtain incs1 final netlinks1 resources1 types1 where
    m: "mergeSyscalls syscalls = Inr final" and
    n: "SortFunc structCmp netlinks = Inr netlinks1" and
    d: "desc = [DParsed (autoGeneratedNotice @ commonKernelHeaders)]
            @ map (\<lambda>n. DNode (NInclude n)) incs1
            @ map (\<lambda>n. DNode (NResource n)) resources1
            @ map (\<lambda>n. DNode (NTypeDef n)) types1
            @ map (\<lambda>c. DNode (NCall c))
                (filter (\<lambda>c. policyQualified c \<longrightarrow> (\<exists>p. policy c = Inr p \<and> p \<in> SName ` set netlinks)) final)
            @ [DParsed mmap2]
            @ map (\<lambda>s. DNode (NStruct s)) netlinks1
            @ [DParsed (netlinkUnionHead @
                 concat (formatArms 0
                   (filter (\<lambda>n. n \<notin> {p. \<exists>c \<in> set final. policyQualified c \<and> policy c = Inr p})
                      (map SName netlinks1))) @ '']'')]"
    by blast
  let ?used = "{p. \<exists>c \<in> set final. policyQualified c \<and> policy c = Inr p}"
  let ?ref = "\<lambda>n. \<exists>node. DNode (NCall node) \<in> set desc \<and> policyQualified node \<and> policy node = Inr n"
  let ?names = "filter (\<lambda>n. n \<notin> ?used) (map SName netlinks1)"
  from d have l: "last desc = DParsed (netlinkUnionHead @
                   concat (map (\<lambda>(i, n). [CHR 0x09] @ ''policy'' @ Itoa i @ '' msghdr_auto['' @ n @ '']'' @ [CHR 0x0A])
                             (enumerate 0 ?names)) @ '']'')"
    by (simp add: formatArms_enumerate unionArm_def tab_def nl_def)
  have mn: "mset netlinks1 = mset netlinks" using n by (rule SortFunc_mset)
  have eq: "n \<notin> ?used \<longleftrightarrow> \<not> ?ref n" if "n \<in> SName ` set netlinks" for n
  proof -
    have "n \<in> ?used \<longleftrightarrow> ?ref n"
    proof
      assume "n \<in> ?used"
      then obtain c where c: "c \<in> set final" "policyQualified c" "policy c = Inr n" by blast
      with that call_in_desc [OF assms m, of c] have "DNode (NCall c) \<in> set desc" by simp
      with c show "?ref n" by blast
    next
      assume "?ref n"
      then obtain node where node: "DNode (NCall node) \<in> set desc" "policyQualified node"
        "policy node = Inr n" by blast
      with call_in_desc [OF assms m, of node] have "node \<in> set final" by simp
      with node show "n \<in> ?used" by blast
    qed
    then show ?thesis by simp
  qed
  have "mset ?names = filter_mset (\<lambda>n. n \<notin> ?used) (image_mset SName (mset netlinks))"
    by (simp flip: mn)
  also have "\<dots> = filter_mset (\<lambda>n. \<not> ?ref n) (image_mset SName (mset netlinks))"
    by (rule filter_mset_cong) (use eq in auto)
  finally show ?thesis using l by blast
qed

theorem union_completeness_witness:
  "\<exists>names.
     last ex_desc = DParsed (netlinkUnionHead @
                   concat (map (\<lambda>(i, n). [CHR 0x09] @ ''policy'' @ Itoa i @ '' msghdr_auto['' @ n @ '']'' @ [CHR 0x0A])
                             (enumerate 0 names)) @ '']'') \<and>
     mset names = {#''pol2''#}"
proof -
  define referenced where
    "referenced = (\<lambda>n. \<exists>node. DNode (NCall node) \<in> set ex_desc \<and> policyQualified node \<and>
                      policy node = Inr n)"
  have r1: "referenced ''pol1''"
    unfolding referenced_def
    by (rule exI [of _ "send_call ''sendmsg$auto0'' ''pol1''"])
       (simp add: ex_desc_def policyQualified_def send_call_def msg_type_def sendmsg_def
          policy_def idx_def)
  have r2: "\<not> referenced ''pol2''"
    unfolding referenced_def
    by (auto simp: ex_desc_def policyQualified_def send_call_def plain_call_def msg_type_def
          sendmsg_def policy_def idx_def)
  have f: "filter_mset (\<lambda>n. \<not> referenced n) (image_mset SName (mset ex_netlinks)) = {#''pol2''#}"
    by (simp add: ex_netlinks_def r1 r2)
  from union_completeness [OF ex_assembleDesc] obtain names where
    l: "last ex_desc = DParsed (netlinkUnionHead @
          concat (map (\<lambda>(i, n). [CHR 0x09] @ ''policy'' @ Itoa i @ '' msghdr_auto['' @ n @ '']'' @ [CHR 0x0A])
                    (enumerate 0 names)) @ '']'')" and
    ms: "mset names =
           filter_mset
             (\<lambda>n. \<not> (\<exists>node. DNode (NCall node) \<in> set ex_desc \<and> policyQualified node \<and>
                      policy node = Inr n))
             (image_mset SName (mset ex_netlinks))"
    by blast
  from ms f [unfolded referenced_def] have "mset names = {#''pol2''#}" by (rule trans)
  with l show ?thesis by blast
qed

text \<open>
  Without the restriction to the two-argument shape the statement fails.  A send
  declaration whose message argument has three type arguments is kept in the output
  (line 181 tests for exactly two), its policy name is never marked used, and the struct
  it names gets an arm all the same.
\<close>

theorem union_completeness_counterexample:
  "assembleDesc [] [send_opt_call ''sendmsg$auto'' ''pol1''] [\<lparr>SName = ''pol1'', SFields = []\<rparr>] [] [] =
     Inr [DParsed (autoGeneratedNotice @ commonKernelHeaders),
          DNode (NCall (send_opt_call ''sendmsg$auto0'' ''pol1'')),
          DParsed mmap2,
          DNode (NStruct \<lparr>SName = ''pol1'', SFields = []\<rparr>),
          DParsed (netlinkUnionHead @ [CHR 0x09] @ ''policy0 msghdr_auto[pol1]'' @ [CHR 0x0A] @ '']'')] \<and>
   CallName (send_opt_call ''sendmsg$auto0'' ''pol1'') = sendmsg \<and>
   policy (send_opt_call ''sendmsg$auto0'' ''pol1'') = Inr ''pol1''"
  by code_simp

section \<open>The syscall merge: suffixes of send declarations\<close>

lemma syscallCmp_name_order:
  assumes "syscallCmp a b = Inr r"
  shows "(r < 0 \<longrightarrow> Name a \<le> Name b) \<and> (0 \<le> r \<longrightarrow> Name b \<le> Name a)"
proof (cases "Compare (Name a) (Name b) = 0")
  case True
  then show ?thesis by (simp add: Compare_eq_iff)
next
  case False
  with assms have "r = Compare (Name a) (Name b)" by (simp add: syscallCmp_def Let_def)
  then show ?thesis
    using Compare_less_iff [of "Name a" "Name b"] Compare_nonneg_iff [of "Name a" "Name b"]
    by auto
qed

lemma SortFunc_syscallCmp_names:
  assumes "SortFunc syscallCmp xs = Inr srt"
  shows "sorted_wrt (\<lambda>a b. Name a \<le> Name b) srt"
proof (rule SortFunc_sorted [OF assms])
  fix a b r assume c: "syscallCmp a b = Inr r"
  { assume "r < 0" with syscallCmp_name_order [OF c] show "Name a \<le> Name b" by simp }
  { assume "0 \<le> r" with syscallCmp_name_order [OF c] show "Name b \<le> Name a" by simp }
next
  fix a b c :: call
  assume "Name a \<le> Name b" "Name b \<le> Name c"
  then show "Name a \<le> Name c" by simp
qed

lemma filter_addSendmsgNo:
  "filter (\<lambda>c. CallName c = sendmsg) (addSendmsgNo n xs) =
     map (\<lambda>(k, c). c\<lparr>Name := Name c @ Itoa k\<rparr>) (enumerate n (filter (\<lambda>c. CallName c = sendmsg) xs))"
  by (induction xs arbitrary: n) simp_all

lemma suffixed_distinct:
  assumes "sorted_wrt (\<lambda>a b. Name a \<le> Name b) sends"
  shows "distinct (map (\<lambda>(k, c). Name c @ Itoa k) (enumerate n sends))"
proof -
  let ?l = "map (\<lambda>(k, c). Name c @ Itoa k) (enumerate n sends)"
  have nth: "?l ! i = Name (sends ! i) @ Itoa (n + i)" if "i < length sends" for i
    using that by (simp add: nth_enumerate_eq)
  have "?l ! i \<noteq> ?l ! j" if "i < j" "j < length sends" for i j
  proof -
    from that have "Name (sends ! i) \<le> Name (sends ! j)"
      using assms by (simp add: sorted_wrt_iff_nth_less)
    moreover from that have "n + i < n + j" by simp
    ultimately have "Name (sends ! i) @ Itoa (n + i) \<noteq> Name (sends ! j) @ Itoa (n + j)"
      by (rule suffixed_names_differ)
    with that nth show ?thesis by simp
  qed
  then have "\<forall>i j. i < length ?l \<longrightarrow> j < length ?l \<longrightarrow> i \<noteq> j \<longrightarrow> ?l ! i \<noteq> ?l ! j"
    by (metis length_map length_enumerate nat_neq_iff)
  then show ?thesis by (simp add: distinct_conv_nth)
qed

lemma compactFrom_keeps_sendmsg:
  assumes "sorted_wrt (\<lambda>a b. Name a \<le> Name b) S"
    and "\<exists>a. (\<forall>c \<in> set S. a \<le> Name c) \<and> (Name prev = a \<or> (\<exists>k < n. Name prev = a @ Itoa k))"
  shows "filter (\<lambda>c. CallName c = sendmsg) (compactFrom (\<lambda>a b. Name a = Name b) prev (addSendmsgNo n S)) =
         filter (\<lambda>c. CallName c = sendmsg) (addSendmsgNo n S)"
  using assms
proof (induction S arbitrary: prev n)
  case Nil
  then show ?case by simp
next
  case (Cons c cs)
  from Cons.prems(1) have scs: "sorted_wrt (\<lambda>a b. Name a \<le> Name b) cs"
    and cle: "\<forall>d \<in> set cs. Name c \<le> Name d" by simp_all
  from Cons.prems(2) obtain a where a: "a \<le> Name c"
    and pa: "Name prev = a \<or> (\<exists>k < n. Name prev = a @ Itoa k)" by auto
  show ?case
  proof (cases "CallName c = sendmsg")
    case True
    let ?c' = "c\<lparr>Name := Name c @ Itoa n\<rparr>"
    have ne: "Name ?c' \<noteq> Name prev"
    proof
      assume e: "Name ?c' = Name prev"
      from pa show False
      proof
        assume "Name prev = a"
        with e have "a = Name c @ Itoa n" by simp
        with name_less_suffixed [OF a, of n] show False by contradiction
      next
        assume "\<exists>k < n. Name prev = a @ Itoa k"
        then obtain k where k: "k < n" "Name prev = a @ Itoa k" by blast
        with e have "a @ Itoa k = Name c @ Itoa n" by simp
        with suffixed_names_differ [OF a k(1)] show False by contradiction
      qed
    qed
    have "\<exists>a. (\<forall>d \<in> set cs. a \<le> Name d) \<and> (Name ?c' = a \<or> (\<exists>k < n + 1. Name ?c' = a @ Itoa k))"
      using cle by (intro exI [of _ "Name c"]) auto
    from Cons.IH [OF scs this] True ne show ?thesis by simp
  next
    case False
    have "\<exists>a. (\<forall>d \<in> set cs. a \<le> Name d) \<and> (Name c = a \<or> (\<exists>k < n. Name c = a @ Itoa k))"
      using cle by (intro exI [of _ "Name c"]) auto
    from Cons.IH [OF scs this] False show ?thesis by simp
  qed
qed

lemma CompactFunc_keeps_sendmsg:
  assumes "sorted_wrt (\<lambda>a b. Name a \<le> Name b) S"
  shows "filter (\<lambda>c. CallName c = sendmsg) (CompactFunc (\<lambda>a b. Name a = Name b) (addSendmsgNo 0 S)) =
         filter (\<lambda>c. CallName c = sendmsg) (addSendmsgNo 0 S)"
proof (cases S)
  case Nil
  then show ?thesis by simp
next
  case (Cons c cs)
  with assms have scs: "sorted_wrt (\<lambda>a b. Name a \<le> Name b) cs"
    and cle: "\<forall>d \<in> set cs. Name c \<le> Name d" by simp_all
  show ?thesis
  proof (cases "CallName c = sendmsg")
    case True
    let ?c' = "c\<lparr>Name := Name c @ Itoa 0\<rparr>"
    have "\<exists>a. (\<forall>d \<in> set cs. a \<le> Name d) \<and> (Name ?c' = a \<or> (\<exists>k < 0 + 1. Name ?c' = a @ Itoa k))"
      using cle by (intro exI [of _ "Name c"]) auto
    from compactFrom_keeps_sendmsg [OF scs this] True Cons show ?thesis by simp
  next
    case False
    have "\<exists>a. (\<forall>d \<in> set cs. a \<le> Name d) \<and> (Name c = a \<or> (\<exists>k < 0. Name c = a @ Itoa k))"
      using cle by (intro exI [of _ "Name c"]) auto
    from compactFrom_keeps_sendmsg [OF scs this] False Cons show ?thesis by simp
  qed
qed

lemma ex_sorted_syscalls: "SortFunc syscallCmp ex_syscalls = Inr ex_sorted"
  by code_simp

text \<open>
  Claim C4.  Let \<open>srt\<close> be the sorted syscall list.  After the suffixing pass the exposed
  name of the \<open>k\<close>-th send declaration is its former name followed by the decimal numeral
  of \<open>k\<close>; these names are pairwise distinct; deduplication by exposed name keeps every
  send declaration; and every call node of the assembled description is an element of the
  deduplicated list as it stands, so a send declaration is emitted under its suffixed name.
\<close>

theorem sendmsg_suffix_non_collapse:
  assumes "SortFunc syscallCmp syscalls = Inr srt"
  shows "map Name (filter (\<lambda>c. CallName c = sendmsg) (addSendmsgNo 0 srt)) =
           map (\<lambda>(k, c). Name c @ Itoa k) (enumerate 0 (filter (\<lambda>c. CallName c = sendmsg) srt)) \<and>
         distinct (map Name (filter (\<lambda>c. CallName c = sendmsg) (addSendmsgNo 0 srt))) \<and>
         (\<exists>final. mergeSyscalls syscalls = Inr final \<and>
            filter (\<lambda>c. CallName c = sendmsg) final =
              filter (\<lambda>c. CallName c = sendmsg) (addSendmsgNo 0 srt) \<and>
            (\<forall>desc node. assembleDesc incs syscalls netlinks types resources = Inr desc \<longrightarrow>
               DNode (NCall node) \<in> set desc \<longrightarrow> node \<in> set final))"
proof -
  let ?send = "\<lambda>c. CallName c = sendmsg"
  have srt: "sorted_wrt (\<lambda>a b. Name a \<le> Name b) srt"
    using assms by (rule SortFunc_syscallCmp_names)
  then have sends: "sorted_wrt (\<lambda>a b. Name a \<le> Name b) (filter ?send srt)"
    by (rule sorted_wrt_filter)
  have names: "map Name (filter ?send (addSendmsgNo 0 srt)) =
           map (\<lambda>(k, c). Name c @ Itoa k) (enumerate 0 (filter ?send srt))"
    by (simp add: filter_addSendmsgNo case_prod_unfold comp_def)
  have dist: "distinct (map Name (filter ?send (addSendmsgNo 0 srt)))"
    unfolding names using sends by (rule suffixed_distinct)
  let ?final = "CompactFunc (\<lambda>a b. Name a = Name b) (addSendmsgNo 0 srt)"
  have m: "mergeSyscalls syscalls = Inr ?final" using assms by (simp add: mergeSyscalls_def)
  have keep: "filter ?send ?final = filter ?send (addSendmsgNo 0 srt)"
    using srt by (rule CompactFunc_keeps_sendmsg)
  have out: "\<forall>desc node. assembleDesc incs syscalls netlinks types resources = Inr desc \<longrightarrow>
               DNode (NCall node) \<in> set desc \<longrightarrow> node \<in> set ?final"
    using call_in_desc [OF _ m] by blast
  from names dist m keep out show ?thesis by blast
qed

theorem sendmsg_suffix_non_collapse_witness:
  "map Name (filter (\<lambda>c. CallName c = sendmsg) (addSendmsgNo 0 ex_sorted)) =
     map (\<lambda>(k, c). Name c @ Itoa k) (enumerate 0 (filter (\<lambda>c. CallName c = sendmsg) ex_sorted)) \<and>
   distinct (map Name (filter (\<lambda>c. CallName c = sendmsg) (addSendmsgNo 0 ex_sorted))) \<and>
   (\<exists>final. mergeSyscalls ex_syscalls = Inr final \<and>
      filter (\<lambda>c. CallName c = sendmsg) final =
        filter (\<lambda>c. CallName c = sendmsg) (addSendmsgNo 0 ex_sorted) \<and>
      (\<forall>desc node. assembleDesc [] ex_syscalls ex_netlinks [] [] = Inr desc \<longrightarrow>
         DNode (NCall node) \<in> set desc \<longrightarrow> node \<in> set final))"
  by (rule sendmsg_suffix_non_collapse [OF ex_sorted_syscalls])

section \<open>The syscall merge: which of two same-named declarations survives\<close>

lemma syscallCmp_argnames:
  assumes "CallName a \<noteq> sendmsg" and "Name a = Name b"
  shows "\<exists>r. syscallCmp a b = Inr r \<and>
           (r < 0 \<longleftrightarrow> map FName (Args a) < map FName (Args b)) \<and>
           (r = 0 \<longleftrightarrow> map FName (Args a) = map FName (Args b))"
  using assms
  by (simp add: syscallCmp_def Let_def Compare_eq_iff CompareFunc_names_less CompareFunc_names_eq)

lemma SortFunc_syscallCmp_group:
  assumes run: "SortFunc syscallCmp xs = Inr srt"
    and ns: "\<forall>c \<in> set xs. Name c = N \<longrightarrow> CallName c \<noteq> sendmsg"
  shows "sorted_wrt (\<lambda>a b. Name a < Name b \<or>
           (Name a = Name b \<and> (Name a = N \<longrightarrow> map FName (Args a) \<le> map FName (Args b)))) srt"
proof (rule SortFunc_sorted [OF run])
  fix a b r assume a: "a \<in> set xs" and b: "b \<in> set xs" and c: "syscallCmp a b = Inr r"
  have grp: "Name a = Name b \<Longrightarrow> Name a = N \<Longrightarrow>
      (r < 0 \<longleftrightarrow> map FName (Args a) < map FName (Args b)) \<and>
      (r = 0 \<longleftrightarrow> map FName (Args a) = map FName (Args b))"
  proof -
    assume e: "Name a = Name b" and n: "Name a = N"
    from ns a n have "CallName a \<noteq> sendmsg" by simp
    from syscallCmp_argnames [OF this e] c show ?thesis by simp
  qed
  have dif: "Name a \<noteq> Name b \<Longrightarrow> r = Compare (Name a) (Name b)"
    using c by (simp add: syscallCmp_def Let_def Compare_eq_iff)
  { assume r: "r < 0"
    show "Name a < Name b \<or>
           (Name a = Name b \<and> (Name a = N \<longrightarrow> map FName (Args a) \<le> map FName (Args b)))"
    proof (cases "Name a = Name b")
      case True
      with grp r show ?thesis by auto
    next
      case False
      with dif r show ?thesis using Compare_less_iff [of "Name a" "Name b"] by simp
    qed }
  { assume r: "0 \<le> r"
    show "Name b < Name a \<or>
           (Name b = Name a \<and> (Name b = N \<longrightarrow> map FName (Args b) \<le> map FName (Args a)))"
    proof (cases "Name a = Name b")
      case True
      with grp r show ?thesis by auto
    next
      case False
      with dif r show ?thesis using Compare_pos_iff [of "Name a" "Name b"] Compare_eq_iff [of "Name a" "Name b"]
        by auto
    qed }
next
  fix a b c :: call
  assume "Name a < Name b \<or>
           (Name a = Name b \<and> (Name a = N \<longrightarrow> map FName (Args a) \<le> map FName (Args b)))"
     and "Name b < Name c \<or>
           (Name b = Name c \<and> (Name b = N \<longrightarrow> map FName (Args b) \<le> map FName (Args c)))"
  then show "Name a < Name c \<or>
           (Name a = Name c \<and> (Name a = N \<longrightarrow> map FName (Args a) \<le> map FName (Args c)))"
    by auto
qed

lemma HasPrefix_append: "HasPrefix (a @ zs) a"
  by (simp add: HasPrefix_def)

lemma compactFrom_group:
  assumes "sorted_wrt (\<lambda>a b. Name a \<le> Name b) S"
    and "\<forall>c \<in> set S. CallName c = sendmsg \<longrightarrow> \<not> HasPrefix N (Name c)"
    and "Name prev = N \<longrightarrow> (\<forall>c \<in> set S. N \<le> Name c)"
  shows "filter (\<lambda>c. Name c = N) (compactFrom (\<lambda>a b. Name a = Name b) prev (addSendmsgNo n S)) =
         (if Name prev = N then [] else take 1 (filter (\<lambda>c. Name c = N) S))"
  using assms
proof (induction S arbitrary: prev n)
  case Nil
  then show ?case by simp
next
  case (Cons c cs)
  from Cons.prems(1) have scs: "sorted_wrt (\<lambda>a b. Name a \<le> Name b) cs"
    and cle: "\<forall>d \<in> set cs. Name c \<le> Name d" by simp_all
  from Cons.prems(2) have pcs: "\<forall>c \<in> set cs. CallName c = sendmsg \<longrightarrow> \<not> HasPrefix N (Name c)"
    and pc: "CallName c = sendmsg \<longrightarrow> \<not> HasPrefix N (Name c)" by simp_all
  show ?case
  proof (cases "Name c = N")
    case True
    with pc have ns: "CallName c \<noteq> sendmsg" using HasPrefix_append [of N "[]"] by auto
    from True cle have "Name c = N \<longrightarrow> (\<forall>d \<in> set cs. N \<le> Name d)" by simp
    from Cons.IH [OF scs pcs this] True ns show ?thesis by simp
  next
    case False
    let ?c' = "if CallName c = sendmsg then c\<lparr>Name := Name c @ Itoa n\<rparr> else c"
    let ?n' = "if CallName c = sendmsg then n + 1 else n"
    have c': "Name ?c' \<noteq> N"
    proof (cases "CallName c = sendmsg")
      case True
      with pc have "\<not> HasPrefix N (Name c)" by simp
      then have "Name c @ Itoa n \<noteq> N" using HasPrefix_append [of "Name c" "Itoa n"] by auto
      with True show ?thesis by simp
    next
      case False
      with \<open>Name c \<noteq> N\<close> show ?thesis by simp
    qed
    have step: "addSendmsgNo n (c # cs) = ?c' # addSendmsgNo ?n' cs" by simp
    have ih: "filter (\<lambda>c. Name c = N) (compactFrom (\<lambda>a b. Name a = Name b) ?c' (addSendmsgNo ?n' cs)) =
         take 1 (filter (\<lambda>c. Name c = N) cs)"
      using Cons.IH [OF scs pcs, of ?c' ?n'] c' by simp
    have tail_empty: "filter (\<lambda>c. Name c = N) cs = []" if "Name prev = N"
    proof -
      from that Cons.prems(3) have "N \<le> Name c" by simp
      with False have "N < Name c" by simp
      with cle have "\<forall>d \<in> set cs. Name d \<noteq> N" by auto
      then show ?thesis by (simp add: filter_empty_conv)
    qed
    show ?thesis
      unfolding step using ih c' False tail_empty by (simp del: addSendmsgNo.simps)
  qed
qed

lemma CompactFunc_group:
  assumes "sorted_wrt (\<lambda>a b. Name a \<le> Name b) S"
    and "\<forall>c \<in> set S. CallName c = sendmsg \<longrightarrow> \<not> HasPrefix N (Name c)"
  shows "filter (\<lambda>c. Name c = N) (CompactFunc (\<lambda>a b. Name a = Name b) (addSendmsgNo 0 S)) =
         take 1 (filter (\<lambda>c. Name c = N) S)"
proof (cases S)
  case Nil
  then show ?thesis by simp
next
  case (Cons c cs)
  with assms(1) have scs: "sorted_wrt (\<lambda>a b. Name a \<le> Name b) cs"
    and cle: "\<forall>d \<in> set cs. Name c \<le> Name d" by simp_all
  from assms(2) Cons have pcs: "\<forall>c \<in> set cs. CallName c = sendmsg \<longrightarrow> \<not> HasPrefix N (Name c)"
    and pc: "CallName c = sendmsg \<longrightarrow> \<not> HasPrefix N (Name c)" by simp_all
  show ?thesis
  proof (cases "Name c = N")
    case True
    with pc have ns: "CallName c \<noteq> sendmsg" using HasPrefix_append [of N "[]"] by auto
    from True cle have "Name c = N \<longrightarrow> (\<forall>d \<in> set cs. N \<le> Name d)" by simp
    from compactFrom_group [OF scs pcs this, of 0] True ns Cons show ?thesis by simp
  next
    case False
    let ?c' = "if CallName c = sendmsg then c\<lparr>Name := Name c @ Itoa 0\<rparr> else c"
    let ?n' = "if CallName c = sendmsg then 0 + 1 else (0 :: nat)"
    have c': "Name ?c' \<noteq> N"
    proof (cases "CallName c = sendmsg")
      case True
      with pc have "\<not> HasPrefix N (Name c)" by simp
      then have "Name c @ Itoa 0 \<noteq> N" using HasPrefix_append [of "Name c" "Itoa 0"] by auto
      with True show ?thesis by simp
    next
      case False
      with \<open>Name c \<noteq> N\<close> show ?thesis by simp
    qed
    have step: "addSendmsgNo 0 S = ?c' # addSendmsgNo ?n' cs" using Cons by simp
    have "filter (\<lambda>c. Name c = N) (compactFrom (\<lambda>a b. Name a = Name b) ?c' (addSendmsgNo ?n' cs)) =
         take 1 (filter (\<lambda>c. Name c = N) cs)"
      using compactFrom_group [OF scs pcs, of ?c' ?n'] c' by simp
    then show ?thesis
      unfolding step using c' False Cons by (simp del: addSendmsgNo.simps)
  qed
qed

lemma ex_tie_merge: "mergeSyscalls [args_ba_call, args_ac_call] = Inr [args_ac_call]"
  by code_simp

text \<open>
  Claim C3, as the code has it.  For a declaration \<open>a\<close> that is not a send declaration and a
  declaration \<open>b\<close> of the same exposed name, the comparator orders the two by their
  argument names compared position by position in declaration order (the lexicographic
  order of the two name sequences; nothing sorts the names first).  And for an exposed name
  \<open>N\<close> of which no send declaration's exposed name is a prefix, the merge keeps exactly one
  declaration named \<open>N\<close>: one of the input whose sequence of argument names is least in
  that order.
\<close>

theorem dedup_tie_break:
  "(CallName a \<noteq> sendmsg \<and> Name a = Name b \<longrightarrow>
      (\<exists>r. syscallCmp a b = Inr r \<and>
           (r < 0 \<longleftrightarrow> map FName (Args a) < map FName (Args b)) \<and>
           (r = 0 \<longleftrightarrow> map FName (Args a) = map FName (Args b)))) \<and>
   (mergeSyscalls syscalls = Inr final \<and>
    (\<forall>c \<in> set syscalls. CallName c = sendmsg \<longrightarrow> \<not> HasPrefix N (Name c)) \<and>
    x \<in> set syscalls \<and> Name x = N \<longrightarrow>
      (\<exists>y. filter (\<lambda>c. Name c = N) final = [y] \<and> y \<in> set syscalls \<and>
           map FName (Args y) \<le> map FName (Args x)))"
proof (intro conjI impI)
  assume "CallName a \<noteq> sendmsg \<and> Name a = Name b"
  then show "\<exists>r. syscallCmp a b = Inr r \<and>
           (r < 0 \<longleftrightarrow> map FName (Args a) < map FName (Args b)) \<and>
           (r = 0 \<longleftrightarrow> map FName (Args a) = map FName (Args b))"
    using syscallCmp_argnames [of a b] by simp
next
  assume h: "mergeSyscalls syscalls = Inr final \<and>
    (\<forall>c \<in> set syscalls. CallName c = sendmsg \<longrightarrow> \<not> HasPrefix N (Name c)) \<and>
    x \<in> set syscalls \<and> Name x = N"
  then have m: "mergeSyscalls syscalls = Inr final"
    and np: "\<forall>c \<in> set syscalls. CallName c = sendmsg \<longrightarrow> \<not> HasPrefix N (Name c)"
    and x: "x \<in> set syscalls" "Name x = N" by simp_all
  from m obtain srt where srt: "SortFunc syscallCmp syscalls = Inr srt"
    and final: "final = CompactFunc (\<lambda>a b. Name a = Name b) (addSendmsgNo 0 srt)"
    by (auto simp: mergeSyscalls_def split: sum.splits)
  have set: "set srt = set syscalls" using srt by (rule SortFunc_set)
  have ns: "\<forall>c \<in> set syscalls. Name c = N \<longrightarrow> CallName c \<noteq> sendmsg"
  proof (intro ballI impI)
    fix c assume "c \<in> set syscalls" "Name c = N"
    with np HasPrefix_append [of N "[]"] show "CallName c \<noteq> sendmsg" by auto
  qed
  let ?R = "\<lambda>a b. Name a < Name b \<or>
           (Name a = Name b \<and> (Name a = N \<longrightarrow> map FName (Args a) \<le> map FName (Args b)))"
  let ?G = "filter (\<lambda>c. Name c = N) srt"
  have "sorted_wrt ?R srt" using srt ns by (rule SortFunc_syscallCmp_group)
  then have sg: "sorted_wrt ?R ?G" by (rule sorted_wrt_filter)
  have sn: "sorted_wrt (\<lambda>a b. Name a \<le> Name b) srt" using srt by (rule SortFunc_syscallCmp_names)
  from np set have np': "\<forall>c \<in> set srt. CallName c = sendmsg \<longrightarrow> \<not> HasPrefix N (Name c)" by simp
  have grp: "filter (\<lambda>c. Name c = N) final = take 1 ?G"
    unfolding final using sn np' by (rule CompactFunc_group)
  from x set have xg: "x \<in> set ?G" by simp
  then obtain y ys where g: "?G = y # ys" by (cases ?G) auto
  have yin: "y \<in> set ?G" using g by simp
  then have y: "y \<in> set syscalls" "Name y = N" using set by simp_all
  have "map FName (Args y) \<le> map FName (Args x)"
  proof (cases "x = y")
    case True
    then show ?thesis by simp
  next
    case False
    with xg g have "x \<in> set ys" by simp
    with sg g have "?R y x" by simp
    with y x show ?thesis by simp
  qed
  with grp g y show "\<exists>y. filter (\<lambda>c. Name c = N) final = [y] \<and> y \<in> set syscalls \<and>
           map FName (Args y) \<le> map FName (Args x)"
    by simp
qed

theorem dedup_tie_break_witness:
  "(\<exists>r. syscallCmp args_ba_call args_ac_call = Inr r \<and>
       (r < 0 \<longleftrightarrow> map FName (Args args_ba_call) < map FName (Args args_ac_call)) \<and>
       (r = 0 \<longleftrightarrow> map FName (Args args_ba_call) = map FName (Args args_ac_call))) \<and>
   (\<exists>y. filter (\<lambda>c. Name c = ''dup$auto'') [args_ac_call] = [y] \<and>
        y \<in> set [args_ba_call, args_ac_call] \<and>
        map FName (Args y) \<le> map FName (Args args_ba_call))"
proof -
  have a: "CallName args_ba_call \<noteq> sendmsg \<and> Name args_ba_call = Name args_ac_call"
    by (simp add: args_ba_call_def args_ac_call_def plain_call_def sendmsg_def)
  have b: "mergeSyscalls [args_ba_call, args_ac_call] = Inr [args_ac_call] \<and>
    (\<forall>c \<in> set [args_ba_call, args_ac_call]. CallName c = sendmsg \<longrightarrow> \<not> HasPrefix ''dup$auto'' (Name c)) \<and>
    args_ba_call \<in> set [args_ba_call, args_ac_call] \<and> Name args_ba_call = ''dup$auto''"
    using ex_tie_merge by (simp add: args_ba_call_def args_ac_call_def plain_call_def sendmsg_def)
  from dedup_tie_break [of args_ba_call args_ac_call "[args_ba_call, args_ac_call]" "[args_ac_call]"
      "''dup$auto''" args_ba_call] a b
  show ?thesis by blast
qed

text \<open>
  The claim as stated fails twice.  Of \<open>args_ba_call\<close> (arguments \<open>b, a\<close>) and
  \<open>args_ac_call\<close> (arguments \<open>a, c\<close>) the first has the smaller sorted sequence of
  argument names, yet the comparator puts it second and deduplication keeps the other.  And
  when the suffix makes a send declaration \<open>s\<close> into \<open>s0\<close>, the two declarations named
  \<open>s0\<close> that follow it are both dropped.
\<close>

theorem dedup_tie_break_counterexample:
  "sortedArgNames args_ba_call < sortedArgNames args_ac_call \<and>
   syscallCmp args_ba_call args_ac_call = Inr 1 \<and>
   mergeSyscalls [args_ba_call, args_ac_call] = Inr [args_ac_call] \<and>
   mergeSyscalls [send_call ''s'' ''pol'', plain_call ''s0'' ''dup'' [(''a'', ''int32'')],
                  plain_call ''s0'' ''dup'' [(''b'', ''int32'')]] = Inr [send_call ''s0'' ''pol'']"
  by code_simp

section \<open>Determinism of the run\<close>

lemma SortFunc_perm_eq:
  assumes perm: "mset xs' = mset xs"
    and total: "\<forall>a \<in> set xs. \<forall>b \<in> set xs. \<exists>r. cmp a b = Inr r"
    and lt: "\<And>a b r. a \<in> set xs \<Longrightarrow> b \<in> set xs \<Longrightarrow> cmp a b = Inr r \<Longrightarrow> r < 0 \<Longrightarrow> R a b"
    and ge: "\<And>a b r. a \<in> set xs \<Longrightarrow> b \<in> set xs \<Longrightarrow> cmp a b = Inr r \<Longrightarrow> 0 \<le> r \<Longrightarrow> R b a"
    and tr: "\<And>a b c. a \<in> set xs \<Longrightarrow> b \<in> set xs \<Longrightarrow> c \<in> set xs \<Longrightarrow> R a b \<Longrightarrow> R b c \<Longrightarrow> R a c"
    and anti: "\<And>a b. a \<in> set xs \<Longrightarrow> b \<in> set xs \<Longrightarrow> R a b \<Longrightarrow> R b a \<Longrightarrow> a = b"
  shows "SortFunc cmp xs' = SortFunc cmp xs"
proof -
  from perm have set: "set xs' = set xs" by (rule mset_eq_setD)
  from total have "\<exists>ys. SortFunc cmp xs = Inr ys" by (rule SortFunc_total)
  then obtain ys where ys: "SortFunc cmp xs = Inr ys" ..
  from total set have "\<forall>a \<in> set xs'. \<forall>b \<in> set xs'. \<exists>r. cmp a b = Inr r" by simp
  then have "\<exists>ys. SortFunc cmp xs' = Inr ys" by (rule SortFunc_total)
  then obtain ys' where ys': "SortFunc cmp xs' = Inr ys'" ..
  have s: "sorted_wrt R ys" using ys lt ge tr by (rule SortFunc_sorted)
  have s': "sorted_wrt R ys'"
  proof (rule SortFunc_sorted [OF ys'])
    fix a b r assume "a \<in> set xs'" "b \<in> set xs'" "cmp a b = Inr r"
    with set have m: "a \<in> set xs" "b \<in> set xs" and c: "cmp a b = Inr r" by simp_all
    { assume "r < 0" with m c show "R a b" by (rule lt) }
    { assume "0 \<le> r" with m c show "R b a" by (rule ge) }
  next
    fix a b c assume "a \<in> set xs'" "b \<in> set xs'" "c \<in> set xs'" and r: "R a b" "R b c"
    with set have "a \<in> set xs" "b \<in> set xs" "c \<in> set xs" by simp_all
    then show "R a c" using r by (rule tr)
  qed
  have m: "mset ys' = mset ys" using SortFunc_mset [OF ys] SortFunc_mset [OF ys'] perm by simp
  have sy: "set ys' = set xs" using SortFunc_set [OF ys'] set by simp
  have "ys' = ys"
  proof (rule sorted_wrt_unique [OF m s' s])
    show "\<forall>a \<in> set ys'. \<forall>b \<in> set ys'. R a b \<longrightarrow> R b a \<longrightarrow> a = b"
    proof (intro ballI impI)
      fix a b assume "a \<in> set ys'" "b \<in> set ys'" and r: "R a b" "R b a"
      with sy have "a \<in> set xs" "b \<in> set xs" by simp_all
      then show "a = b" using r by (rule anti)
    qed
  qed
  with ys ys' show ?thesis by simp
qed

lemma SortFunc_by_name_perm_eq:
  fixes f :: "'a \<Rightarrow> string"
  assumes perm: "mset xs' = mset xs"
    and inj: "\<forall>a \<in> set xs. \<forall>b \<in> set xs. f a = f b \<longrightarrow> a = b"
  shows "SortFunc (\<lambda>a b. Inr (Compare (f a) (f b))) xs' = SortFunc (\<lambda>a b. Inr (Compare (f a) (f b))) xs"
proof (rule SortFunc_perm_eq [OF perm, where R = "\<lambda>a b. f a \<le> f b"])
  show "\<forall>a\<in>set xs. \<forall>b\<in>set xs. \<exists>r. (Inr (Compare (f a) (f b)) :: error + int) = Inr r" by simp
next
  fix a b :: 'a and r :: int
  assume "Inr (Compare (f a) (f b)) = (Inr r :: error + int)"
  then have r: "r = Compare (f a) (f b)" by simp
  { assume "r < 0" with r show "f a \<le> f b" using Compare_less_iff [of "f a" "f b"] by simp }
  { assume "0 \<le> r" with r show "f b \<le> f a" using Compare_nonneg_iff [of "f a" "f b"] by simp }
next
  fix a b c :: 'a assume "f a \<le> f b" "f b \<le> f c"
  then show "f a \<le> f c" by simp
next
  fix a b assume "a \<in> set xs" "b \<in> set xs" "f a \<le> f b" "f b \<le> f a"
  with inj show "a = b" by simp
qed

lemma syscallCmp_same_name_send:
  assumes "Name a = Name b" "CallName a = sendmsg" "policyShape a" "policyShape b"
  shows "syscallCmp a b =
     Inr (Compare (Ident (TArgs (TArgs (FType (Args a ! 1)) ! 1) ! 1))
                  (Ident (TArgs (TArgs (FType (Args b ! 1)) ! 1) ! 1)))"
  using assms by (simp add: syscallCmp_def Let_def Compare_eq_iff policy_of_shape)

lemma syscallCmp_same_name_plain:
  assumes "Name a = Name b" "CallName a \<noteq> sendmsg"
  shows "syscallCmp a b = Inr (CompareFunc (Args a) (Args b) (\<lambda>a b. Compare (FName a) (FName b)))"
  using assms by (simp add: syscallCmp_def Let_def Compare_eq_iff)

lemma syscallCmp_other_name:
  assumes "Name a \<noteq> Name b"
  shows "syscallCmp a b = Inr (Compare (Name a) (Name b))"
  using assms by (simp add: syscallCmp_def Let_def Compare_eq_iff)

lemma SortFunc_syscallCmp_perm_eq:
  assumes perm: "mset xs' = mset xs"
    and H1: "\<forall>x \<in> set xs. \<forall>y \<in> set xs. Name x = Name y \<longrightarrow>
               (CallName x = sendmsg \<longleftrightarrow> CallName y = sendmsg)"
    and H2: "\<forall>x \<in> set xs. CallName x = sendmsg \<longrightarrow> policyShape x"
    and H3: "\<forall>x \<in> set xs. \<forall>y \<in> set xs. syscallCmp x y = Inr 0 \<longrightarrow> x = y"
  shows "SortFunc syscallCmp xs' = SortFunc syscallCmp xs"
proof -
  let ?pol = "\<lambda>a. Ident (TArgs (TArgs (FType (Args a ! 1)) ! 1) ! 1)"
  let ?arg = "\<lambda>a. map FName (Args a)"
  let ?R = "\<lambda>a b. Name a < Name b \<or>
              (Name a = Name b \<and>
               (if CallName a = sendmsg then ?pol a \<le> ?pol b else ?arg a \<le> ?arg b))"
  have send: "syscallCmp a b = Inr (Compare (?pol a) (?pol b))"
    if "a \<in> set xs" "b \<in> set xs" "Name a = Name b" "CallName a = sendmsg" for a b
  proof -
    from H1 that have "CallName b = sendmsg" by blast
    with H2 that have "policyShape a" "policyShape b" by simp_all
    with that show ?thesis by (simp add: syscallCmp_same_name_send)
  qed
  have both: "CallName b = sendmsg \<longleftrightarrow> CallName a = sendmsg"
    if "a \<in> set xs" "b \<in> set xs" "Name a = Name b" for a b
    using H1 that by blast
  show ?thesis
  proof (rule SortFunc_perm_eq [OF perm, where R = ?R])
    show "\<forall>a \<in> set xs. \<forall>b \<in> set xs. \<exists>r. syscallCmp a b = Inr r"
    proof (intro ballI)
      fix a b assume ab: "a \<in> set xs" "b \<in> set xs"
      show "\<exists>r. syscallCmp a b = Inr r"
      proof (cases "Name a = Name b")
        case False
        then show ?thesis by (simp add: syscallCmp_other_name)
      next
        case True
        show ?thesis
        proof (cases "CallName a = sendmsg")
          case s: True
          from send [OF ab True s] show ?thesis by simp
        next
          case s: False
          from syscallCmp_same_name_plain [OF True s] show ?thesis by simp
        qed
      qed
    qed
  next
    fix a b r assume ab: "a \<in> set xs" "b \<in> set xs" and c: "syscallCmp a b = Inr r"
    { assume r: "r < 0"
      show "?R a b"
      proof (cases "Name a = Name b")
        case False
        with c r show ?thesis
          using Compare_less_iff [of "Name a" "Name b"] by (simp add: syscallCmp_other_name)
      next
        case True
        show ?thesis
        proof (cases "CallName a = sendmsg")
          case s: True
          from send [OF ab True s] c r have "?pol a < ?pol b"
            using Compare_less_iff [of "?pol a" "?pol b"] by simp
          with True s show ?thesis by simp
        next
          case s: False
          from syscallCmp_same_name_plain [OF True s] c r have "?arg a < ?arg b"
            using CompareFunc_names_less [of "Args a" "Args b"] by simp
          with True s show ?thesis by simp
        qed
      qed }
    { assume r: "0 \<le> r"
      show "?R b a"
      proof (cases "Name a = Name b")
        case False
        with c r have "Name b < Name a"
          using Compare_pos_iff [of "Name a" "Name b"] Compare_eq_iff [of "Name a" "Name b"]
          by (simp add: syscallCmp_other_name)
        then show ?thesis by simp
      next
        case True
        show ?thesis
        proof (cases "CallName a = sendmsg")
          case s: True
          from send [OF ab True s] c r have "?pol b \<le> ?pol a"
            using Compare_nonneg_iff [of "?pol a" "?pol b"] by simp
          moreover from both [OF ab True] s have "CallName b = sendmsg" by simp
          ultimately show ?thesis using True by simp
        next
          case s: False
          from syscallCmp_same_name_plain [OF True s] c r have "\<not> ?arg a < ?arg b"
            using CompareFunc_names_less [of "Args a" "Args b"] by simp
          then have "?arg b \<le> ?arg a" by simp
          moreover from both [OF ab True] s have "CallName b \<noteq> sendmsg" by simp
          ultimately show ?thesis using True by simp
        qed
      qed }
  next
    fix a b c assume m: "a \<in> set xs" "b \<in> set xs" "c \<in> set xs" and ab: "?R a b" and bc: "?R b c"
    show "?R a c"
    proof (cases "Name a = Name b \<and> Name b = Name c")
      case False
      with ab bc have "Name a < Name c" by auto
      then show ?thesis by simp
    next
      case True
      then have e: "Name a = Name b" "Name b = Name c" by simp_all
      from both [OF m(1,2) e(1)] have sb: "CallName b = sendmsg \<longleftrightarrow> CallName a = sendmsg" .
      show ?thesis
      proof (cases "CallName a = sendmsg")
        case s: True
        with sb ab bc e have "?pol a \<le> ?pol b" "?pol b \<le> ?pol c" by simp_all
        then have "?pol a \<le> ?pol c" by (rule order_trans)
        with e s show ?thesis by simp
      next
        case s: False
        with sb ab bc e have "?arg a \<le> ?arg b" "?arg b \<le> ?arg c" by simp_all
        then have "?arg a \<le> ?arg c" by (rule order_trans)
        with e s show ?thesis by simp
      qed
    qed
  next
    fix a b assume m: "a \<in> set xs" "b \<in> set xs" and ab: "?R a b" and ba: "?R b a"
    from ab ba have e: "Name a = Name b" by auto
    from both [OF m e] have sb: "CallName b = sendmsg \<longleftrightarrow> CallName a = sendmsg" .
    have "syscallCmp a b = Inr 0"
    proof (cases "CallName a = sendmsg")
      case s: True
      with sb ab ba e have "?pol a = ?pol b" by simp
      with send [OF m e s] show ?thesis by (simp add: Compare_eq_iff)
    next
      case s: False
      with sb ab ba e have "?arg a = ?arg b" by simp
      then have "CompareFunc (Args a) (Args b) (\<lambda>a b. Compare (FName a) (FName b)) = 0"
        by (simp add: CompareFunc_names_eq)
      with syscallCmp_same_name_plain [OF e s] show ?thesis by simp
    qed
    with H3 m show "a = b" by blast
  qed
qed

lemma foldl_classify:
  "foldl (classify rename) b nodes =
     \<lparr>syscalls_acc = syscalls_acc b @ concat (map (callsOf rename) nodes),
      netlinks_acc = netlinks_acc b @ concat (map structsOf nodes),
      includes_acc = includes_acc b @ concat (map includesOf nodes),
      typeDefs_acc = typeDefs_acc b @ concat (map typeDefsOf nodes),
      resources_acc = resources_acc b @ concat (map resourcesOf nodes)\<rparr>"
proof (induction nodes arbitrary: b)
  case Nil
  then show ?case by simp
next
  case (Cons n ns)
  show ?case by (cases n) (simp_all add: Cons.IH)
qed

lemma mainLoop_Inr:
  "mainLoop rename b outs = Inr b' \<Longrightarrow>
     (\<forall>out \<in> set outs. stderr out = [] \<and> parsed out \<noteq> None) \<and>
     b' = foldl (classify rename) b (concat (map (\<lambda>out. the (parsed out)) outs))"
proof (induction outs arbitrary: b)
  case Nil
  then show ?case by simp
next
  case (Cons out outs)
  from Cons.prems have e: "stderr out = []" by (simp split: if_splits)
  with Cons.prems obtain nodes where p: "parsed out = Some nodes" by (auto split: option.splits)
  with e Cons.prems have "mainLoop rename (foldl (classify rename) b nodes) outs = Inr b'" by simp
  from Cons.IH [OF this] e p show ?case by simp
qed

lemma mainLoop_ok:
  "\<forall>out \<in> set outs. stderr out = [] \<and> parsed out \<noteq> None \<Longrightarrow>
   mainLoop rename b outs =
     Inr (foldl (classify rename) b (concat (map (\<lambda>out. the (parsed out)) outs)))"
proof (induction outs arbitrary: b)
  case Nil
  then show ?case by simp
next
  case (Cons out outs)
  from Cons.prems obtain nodes where p: "parsed out = Some nodes" and e: "stderr out = []" by auto
  from Cons.prems have "\<forall>out \<in> set outs. stderr out = [] \<and> parsed out \<noteq> None" by simp
  from Cons.IH [OF this] p e show ?case by simp
qed

lemma mset_concat_map:
  "mset (concat (map g xs)) = (\<Sum>x \<in># mset xs. mset (g x))"
  by (induction xs) simp_all

lemma mset_concat_map_perm:
  "mset xs' = mset xs \<Longrightarrow> mset (concat (map g xs')) = mset (concat (map g xs))"
  by (simp add: mset_concat_map)

lemma concat_map_concat_map:
  "concat (map g (concat (map h xs))) = concat (map (\<lambda>x. concat (map g (h x))) xs)"
  by (induction xs) simp_all

lemma bucket_perm:
  "mset outs' = mset outs \<Longrightarrow>
   mset (concat (map g (concat (map h outs')))) = mset (concat (map g (concat (map h outs))))"
  unfolding concat_map_concat_map by (rule mset_concat_map_perm)

lemma include_node_eqI: "File (a :: include_node) = File b \<Longrightarrow> a = b"
  by simp

lemma assembleDesc_cong:
  assumes "SortFunc includeCmp incs' = SortFunc includeCmp incs"
    and "SortFunc syscallCmp syscalls' = SortFunc syscallCmp syscalls"
    and "SortFunc structCmp netlinks' = SortFunc structCmp netlinks"
    and "SortFunc typedefCmp types' = SortFunc typedefCmp types"
    and "SortFunc resourceCmp resources' = SortFunc resourceCmp resources"
  shows "assembleDesc incs' syscalls' netlinks' types' resources' =
         assembleDesc incs syscalls netlinks types resources"
  unfolding assembleDesc_def mergeIncludes_def mergeSyscalls_def assms by (rule refl)

lemma det_mainLoop: "mainLoop det_table noBuckets [getpid_out, dup_int32_out] = Inr det_buckets"
  by code_simp

lemma mainLoop_abort_perm:
  assumes "mset outs' = mset outs" and "mainLoop rename b outs = Inl e"
  shows "\<exists>e'. mainLoop rename b outs' = Inl e'"
proof (rule ccontr)
  assume "\<not> (\<exists>e'. mainLoop rename b outs' = Inl e')"
  then obtain b' where "mainLoop rename b outs' = Inr b'" by (cases "mainLoop rename b outs'") auto
  then have "\<forall>out \<in> set outs'. stderr out = [] \<and> parsed out \<noteq> None"
    using mainLoop_Inr by blast
  moreover from assms(1) have "set outs' = set outs" by (rule mset_eq_setD)
  ultimately have "\<forall>out \<in> set outs. stderr out = [] \<and> parsed out \<noteq> None" by simp
  from mainLoop_ok [OF this, of rename b] assms(2) show False by simp
qed
text \<open>
  When the order of the drained results does not matter.  Take two runs with the same
  rename table whose drained results are permutations of each other, none of them
  carrying error text or failing to parse (otherwise both runs abort and write nothing,
  \<open>mainLoop_abort_perm\<close>).  Both runs hand the same description to the serializer,
  provided the collected accumulators meet what the comparators take for granted:
  declarations of one exposed name are all send declarations or none is, every send
  declaration has the policy shape, two syscall declarations that the comparator cannot
  tell apart are the same declaration, and netlink structs, type definitions and resources
  are determined by their names.
\<close>

lemma pipeline_order_independent:
  assumes perm: "mset outs' = mset outs"
    and col: "mainLoop rename noBuckets outs = Inr b"
    and H1: "\<forall>x \<in> set (syscalls_acc b). \<forall>y \<in> set (syscalls_acc b). Name x = Name y \<longrightarrow>
               (CallName x = sendmsg \<longleftrightarrow> CallName y = sendmsg)"
    and H2: "\<forall>x \<in> set (syscalls_acc b). CallName x = sendmsg \<longrightarrow> policyShape x"
    and H3: "\<forall>x \<in> set (syscalls_acc b). \<forall>y \<in> set (syscalls_acc b).
               syscallCmp x y = Inr 0 \<longrightarrow> x = y"
    and H4: "\<forall>x \<in> set (netlinks_acc b). \<forall>y \<in> set (netlinks_acc b). SName x = SName y \<longrightarrow> x = y"
    and H5: "\<forall>x \<in> set (typeDefs_acc b). \<forall>y \<in> set (typeDefs_acc b). TName x = TName y \<longrightarrow> x = y"
    and H6: "\<forall>x \<in> set (resources_acc b). \<forall>y \<in> set (resources_acc b). RName x = RName y \<longrightarrow> x = y"
  shows "\<exists>desc. pipeline rename outs = Inr desc \<and> pipeline rename outs' = Inr desc"
proof -
  let ?h = "\<lambda>out. the (parsed out)"
  from mainLoop_Inr [OF col] have ok: "\<forall>out \<in> set outs. stderr out = [] \<and> parsed out \<noteq> None"
    and b: "b = foldl (classify rename) noBuckets (concat (map ?h outs))" by simp_all
  from perm have "set outs' = set outs" by (rule mset_eq_setD)
  with ok have ok': "\<forall>out \<in> set outs'. stderr out = [] \<and> parsed out \<noteq> None" by simp
  define b' where "b' = foldl (classify rename) noBuckets (concat (map ?h outs'))"
  from mainLoop_ok [OF ok'] have col': "mainLoop rename noBuckets outs' = Inr b'"
    by (simp add: b'_def)
  have sb: "syscalls_acc b = concat (map (callsOf rename) (concat (map ?h outs)))"
    and nb: "netlinks_acc b = concat (map structsOf (concat (map ?h outs)))"
    and ib: "includes_acc b = concat (map includesOf (concat (map ?h outs)))"
    and tb: "typeDefs_acc b = concat (map typeDefsOf (concat (map ?h outs)))"
    and rb: "resources_acc b = concat (map resourcesOf (concat (map ?h outs)))"
    unfolding b by (simp_all add: foldl_classify noBuckets_def)
  have sb': "syscalls_acc b' = concat (map (callsOf rename) (concat (map ?h outs')))"
    and nb': "netlinks_acc b' = concat (map structsOf (concat (map ?h outs')))"
    and ib': "includes_acc b' = concat (map includesOf (concat (map ?h outs')))"
    and tb': "typeDefs_acc b' = concat (map typeDefsOf (concat (map ?h outs')))"
    and rb': "resources_acc b' = concat (map resourcesOf (concat (map ?h outs')))"
    unfolding b'_def by (simp_all add: foldl_classify noBuckets_def)
  have ms: "mset (syscalls_acc b') = mset (syscalls_acc b)"
    unfolding sb sb' using perm by (rule bucket_perm)
  have mn: "mset (netlinks_acc b') = mset (netlinks_acc b)"
    unfolding nb nb' using perm by (rule bucket_perm)
  have mi: "mset (includes_acc b') = mset (includes_acc b)"
    unfolding ib ib' using perm by (rule bucket_perm)
  have mt: "mset (typeDefs_acc b') = mset (typeDefs_acc b)"
    unfolding tb tb' using perm by (rule bucket_perm)
  have mr: "mset (resources_acc b') = mset (resources_acc b)"
    unfolding rb rb' using perm by (rule bucket_perm)
  have s1: "SortFunc syscallCmp (syscalls_acc b') = SortFunc syscallCmp (syscalls_acc b)"
    using ms H1 H2 H3 by (rule SortFunc_syscallCmp_perm_eq)
  have s2: "SortFunc structCmp (netlinks_acc b') = SortFunc structCmp (netlinks_acc b)"
    unfolding structCmp_def using mn H4 by (rule SortFunc_by_name_perm_eq)
  have s3: "SortFunc typedefCmp (typeDefs_acc b') = SortFunc typedefCmp (typeDefs_acc b)"
    unfolding typedefCmp_def using mt H5 by (rule SortFunc_by_name_perm_eq)
  have s4: "SortFunc resourceCmp (resources_acc b') = SortFunc resourceCmp (resources_acc b)"
    unfolding resourceCmp_def using mr H6 by (rule SortFunc_by_name_perm_eq)
  have "\<forall>x \<in> set (includes_acc b). \<forall>y \<in> set (includes_acc b). File x = File y \<longrightarrow> x = y"
    by simp
  with mi have s5: "SortFunc includeCmp (includes_acc b') = SortFunc includeCmp (includes_acc b)"
    unfolding includeCmp_def by (rule SortFunc_by_name_perm_eq)
  have "assembleDesc (includes_acc b') (syscalls_acc b') (netlinks_acc b') (typeDefs_acc b') (resources_acc b') =
        assembleDesc (includes_acc b) (syscalls_acc b) (netlinks_acc b) (typeDefs_acc b) (resources_acc b)"
    using s5 s1 s2 s3 s4 by (rule assembleDesc_cong)
  with col col' have same: "pipeline rename outs' = pipeline rename outs"
    by (simp add: pipeline_def)
  have "\<forall>c \<in> set (syscalls_acc b).
          CallName c = sendmsg \<or>
          (\<exists>s \<in> set (syscalls_acc b). CallName s = sendmsg \<and> Name s = Name c)
          \<longrightarrow> policyShape c"
  proof (intro ballI impI)
    fix c assume c: "c \<in> set (syscalls_acc b)"
      and d: "CallName c = sendmsg \<or>
           (\<exists>s \<in> set (syscalls_acc b). CallName s = sendmsg \<and> Name s = Name c)"
    from d have "CallName c = sendmsg"
    proof
      assume "CallName c = sendmsg"
      then show ?thesis .
    next
      assume "\<exists>s \<in> set (syscalls_acc b). CallName s = sendmsg \<and> Name s = Name c"
      then obtain s where s: "s \<in> set (syscalls_acc b)" "CallName s = sendmsg" "Name s = Name c"
        by blast
      from H1 s(1) c s(3) have "CallName s = sendmsg \<longleftrightarrow> CallName c = sendmsg" by blast
      with s(2) show ?thesis by simp
    qed
    with H2 c show "policyShape c" by blast
  qed
  then have "\<exists>desc. assembleDesc (includes_acc b) (syscalls_acc b) (netlinks_acc b)
                  (typeDefs_acc b) (resources_acc b) = Inr desc"
    using assembleDesc_returns by blast
  with col have "\<exists>desc. pipeline rename outs = Inr desc" by (simp add: pipeline_def)
  with same show ?thesis by auto
qed

lemma det_example_order_independent:
  "\<exists>desc. pipeline det_table [getpid_out, dup_int32_out] = Inr desc \<and>
          pipeline det_table [dup_int32_out, getpid_out] = Inr desc"
proof (rule pipeline_order_independent [OF _ det_mainLoop])
  show "mset [dup_int32_out, getpid_out] = mset [getpid_out, dup_int32_out]" by simp
  show "\<forall>x \<in> set (syscalls_acc det_buckets). \<forall>y \<in> set (syscalls_acc det_buckets).
          Name x = Name y \<longrightarrow> (CallName x = sendmsg \<longleftrightarrow> CallName y = sendmsg)"
    by (simp add: det_buckets_def plain_call_def sendmsg_def)
  show "\<forall>x \<in> set (syscalls_acc det_buckets). CallName x = sendmsg \<longrightarrow> policyShape x"
    by (simp add: det_buckets_def plain_call_def sendmsg_def)
  show "\<forall>x \<in> set (syscalls_acc det_buckets). \<forall>y \<in> set (syscalls_acc det_buckets).
          syscallCmp x y = Inr 0 \<longrightarrow> x = y"
    by (simp add: det_buckets_def plain_call_def sendmsg_def syscallCmp_def)
  show "\<forall>x \<in> set (netlinks_acc det_buckets). \<forall>y \<in> set (netlinks_acc det_buckets).
          SName x = SName y \<longrightarrow> x = y"
    by (simp add: det_buckets_def)
  show "\<forall>x \<in> set (typeDefs_acc det_buckets). \<forall>y \<in> set (typeDefs_acc det_buckets).
          TName x = TName y \<longrightarrow> x = y"
    by (simp add: det_buckets_def)
  show "\<forall>x \<in> set (resources_acc det_buckets). \<forall>y \<in> set (resources_acc det_buckets).
          RName x = RName y \<longrightarrow> x = y"
    by (simp add: det_buckets_def)
qed

text \<open>
  The hypothesis on declarations that the comparator cannot tell apart is needed: the
  comparator looks at the names of the arguments and never at their types.  Two units
  that declare \<open>dup\<close> with the same argument name and different argument types compare
  equal, the sort leaves them in drain order, and deduplication keeps whichever was
  drained first.
\<close>

lemma dup_keeps_first_drained:
  "pipeline dup_table [dup_int32_out, dup_int64_out] =
     Inr (single_call_desc (plain_call ''dup$auto'' ''dup'' [(''fd'', ''int32'')])) \<and>
   pipeline dup_table [dup_int64_out, dup_int32_out] =
     Inr (single_call_desc (plain_call ''dup$auto'' ''dup'' [(''fd'', ''int64'')])) \<and>
   single_call_desc (plain_call ''dup$auto'' ''dup'' [(''fd'', ''int32'')]) \<noteq>
     single_call_desc (plain_call ''dup$auto'' ''dup'' [(''fd'', ''int64'')])"
  by code_simp

text \<open>
  Claim C1.  Two runs with the same rename table and the same multiset of extraction
  outputs, drained in different orders, need not write the same file: the sort does not
  make the deduplication "always keep the same one", as the comment at lines 131 and 132
  has it.  With the table that renames \<^verbatim>\<open>setuid16\<close>
  to \<^verbatim>\<open>setuid\<close>, the units declaring \<^verbatim>\<open>setuid16(uid old_uid_t)\<close> and \<^verbatim>\<open>setuid(uid uid_t)\<close>
  both yield a declaration named \<^verbatim>\<open>setuid$auto\<close> with the one argument name \<^verbatim>\<open>uid\<close>.  The
  comparator reports them equal, so the sort leaves them in drain order and the
  deduplication keeps the one drained first: drained in one order the run hands
  \<^verbatim>\<open>setuid$auto(uid old_uid_t)\<close> to the serializer, drained in the other order
  \<^verbatim>\<open>setuid$auto(uid uid_t)\<close>.
\<close>

theorem pipeline_keeps_first_drained:
  "mset [uid_out, uid16_out] = mset [uid16_out, uid_out] \<and>
   pipeline uid_table [uid16_out, uid_out] = Inr (uid_desc ''old_uid_t'') \<and>
   pipeline uid_table [uid_out, uid16_out] = Inr (uid_desc ''uid_t'') \<and>
   uid_desc ''old_uid_t'' \<noteq> uid_desc ''uid_t''"
proof -
  have "pipeline uid_table [uid16_out, uid_out] = Inr (uid_desc ''old_uid_t'')" by code_simp
  moreover have "pipeline uid_table [uid_out, uid16_out] = Inr (uid_desc ''uid_t'')" by code_simp
  moreover have "uid_desc ''old_uid_t'' \<noteq> uid_desc ''uid_t''" by code_simp
  ultimately show ?thesis by simp
qed

section \<open>Index safety of the syscall merge and of the assembly\<close>

text \<open>
  The comparator (lines 121 to 135) and the loop over the finalized syscalls (lines 180
  to 190) read \<^verbatim>\<open>Args[1].Type.Args[1].Args[1].Ident\<close> of a send declaration without
  testing a length.  This section follows the run of \<open>writeOutput\<close>, with all of its
  exits, on a list whose send declarations have that shape.
\<close>

subsection \<open>The only failure of an append is the nil description\<close>

lemma appendNodes_error: "appendNodes desc ns = Inl e \<Longrightarrow> e = NilDereference"
  by (cases desc; cases ns) auto

lemma appendParsed_error: "appendParsed desc other = Inl e \<Longrightarrow> e = NilDereference"
  by (auto simp: appendParsed_def split: option.splits)

lemma syscallLoopPtr_error:
  "\<forall>c \<in> set xs. CallName c = sendmsg \<longrightarrow> policyShape c \<Longrightarrow>
   syscallLoopPtr netlinks xs st = Inl e \<Longrightarrow> e = NilDereference"
proof (induction xs arbitrary: st)
  case Nil
  then show ?case by simp
next
  case (Cons c cs)
  obtain desc used where st: "st = (desc, used)" by (cases st)
  from Cons.prems(1) have rest: "\<forall>c \<in> set cs. CallName c = sendmsg \<longrightarrow> policyShape c" by simp
  have app: "e = NilDereference"
    if "(case appendNodes desc [NCall c] of Inl e \<Rightarrow> Inl e
         | Inr desc' \<Rightarrow> syscallLoopPtr netlinks cs (desc', u)) = Inl e" for u
  proof (cases "appendNodes desc [NCall c]")
    case (Inl e')
    with that have "e = e'" by simp
    with Inl show ?thesis using appendNodes_error by blast
  next
    case (Inr desc')
    with that have "syscallLoopPtr netlinks cs (desc', u) = Inl e" by simp
    from Cons.IH [OF rest this] show ?thesis .
  qed
  show ?case
  proof (cases "CallName c = sendmsg")
    case False
    with Cons.prems(2) st show ?thesis using app by simp
  next
    case True
    with Cons.prems(1) have sh: "policyShape c" by simp
    then have i: "idx (Args c) 1 = Inr (Args c ! 1)" by (simp add: policyShape_def idx_def)
    note p = policy_of_shape [OF sh]
    show ?thesis
    proof (cases "length (TArgs (FType (Args c ! 1))) = 2")
      case False
      with Cons.prems(2) st True i show ?thesis using app by simp
    next
      case two: True
      show ?thesis
      proof (cases "snd (BinarySearchFunc netlinks (Ident (TArgs (TArgs (FType (Args c ! 1)) ! 1) ! 1))
                      (\<lambda>a b. Compare (SName a) b))")
        case True
        with Cons.prems(2) st \<open>CallName c = sendmsg\<close> i two p show ?thesis using app by simp
      next
        case False
        with Cons.prems(2) st \<open>CallName c = sendmsg\<close> i two p
        have "syscallLoopPtr netlinks cs
                (desc, insert (Ident (TArgs (TArgs (FType (Args c ! 1)) ! 1) ! 1)) used) = Inl e"
          by simp
        from Cons.IH [OF rest this] show ?thesis .
      qed
    qed
  qed
qed

lemma netlinkLoopPtr_error:
  "netlinkLoopPtr used xs st = Inl e \<Longrightarrow> e = NilDereference"
proof (induction xs arbitrary: st)
  case Nil
  then show ?case by simp
next
  case (Cons x xs)
  obtain desc names where st: "st = (desc, names)" by (cases st)
  show ?case
  proof (cases "appendNodes desc [NStruct x]")
    case (Inl e')
    with Cons.prems st have "e = e'" by simp
    with Inl show ?thesis using appendNodes_error by blast
  next
    case (Inr desc')
    with Cons.prems st have "netlinkLoopPtr used xs
        (desc', if SName x \<notin> used then names @ [SName x] else names) = Inl e" by simp
    from Cons.IH [OF this] show ?thesis .
  qed
qed

lemma assemblePtr_error:
  assumes "\<forall>c \<in> set syscalls1. CallName c = sendmsg \<longrightarrow> policyShape c"
    and "assemblePtr env (incs1, syscalls1, netlinks1, types1, resources1) = Inl e"
  shows "e = NilDereference"
proof -
  let ?h = "Parse env (autoGeneratedNotice @ commonKernelHeaders)"
  show ?thesis
  proof (cases "appendNodes ?h (map NInclude incs1)")
    case (Inl e1)
    with assms(2) have "e = e1" by (simp add: assemblePtr_def)
    with Inl show ?thesis using appendNodes_error by blast
  next
    case (Inr descI)
    note I = this
    show ?thesis
    proof (cases "appendNodes descI (map NResource resources1)")
      case (Inl e1)
      with assms(2) I have "e = e1" by (simp add: assemblePtr_def)
      with Inl show ?thesis using appendNodes_error by blast
    next
      case (Inr descR)
      note R = this
      show ?thesis
      proof (cases "appendNodes descR (map NTypeDef types1)")
        case (Inl e1)
        with assms(2) I R have "e = e1" by (simp add: assemblePtr_def)
        with Inl show ?thesis using appendNodes_error by blast
      next
        case (Inr descT)
        note T = this
        show ?thesis
        proof (cases "syscallLoopPtr netlinks1 syscalls1 (descT, {})")
          case (Inl e1)
          with assms(2) I R T have "e = e1" by (simp add: assemblePtr_def)
          with Inl show ?thesis using syscallLoopPtr_error [OF assms(1)] by blast
        next
          case (Inr stS)
          note S = this
          show ?thesis
          proof (cases "appendParsed (fst stS) (Parse env mmap2)")
            case (Inl e1)
            with assms(2) I R T S have "e = e1" by (simp add: assemblePtr_def)
            with Inl show ?thesis using appendParsed_error by blast
          next
            case (Inr descM)
            note M = this
            show ?thesis
            proof (cases "netlinkLoopPtr (snd stS) netlinks1 (descM, [])")
              case (Inl e1)
              with assms(2) I R T S M have "e = e1" by (simp add: assemblePtr_def)
              with Inl show ?thesis using netlinkLoopPtr_error by blast
            next
              case (Inr stN)
              with assms(2) I R T S M show ?thesis by (simp add: assemblePtr_def)
            qed
          qed
        qed
      qed
    qed
  qed
qed

lemma parseAndWrite_error:
  "parseAndWrite env st \<noteq> Inl IndexOutOfRange"
  by (auto simp: parseAndWrite_def appendParsed_def split: option.splits)

subsection \<open>The five sorts\<close>

lemma mergeAll_returns:
  assumes "mergeSyscalls syscalls = Inr final"
  shows "\<exists>incs1 netlinks1 types1 resources1.
           mergeAll incs syscalls netlinks types resources =
             Inr (incs1, final, netlinks1, types1, resources1)"
proof -
  obtain incs1 where i: "mergeIncludes incs = Inr incs1"
    using SortFunc_total_cmp [of includeCmp incs]
    by (auto simp: mergeIncludes_def includeCmp_def)
  obtain n1 where n: "SortFunc structCmp netlinks = Inr n1"
    using SortFunc_total_cmp [of structCmp netlinks] by (auto simp: structCmp_def)
  obtain r1 where r: "SortFunc resourceCmp resources = Inr r1"
    using SortFunc_total_cmp [of resourceCmp resources] by (auto simp: resourceCmp_def)
  obtain t1 where t: "SortFunc typedefCmp types = Inr t1"
    using SortFunc_total_cmp [of typedefCmp types] by (auto simp: typedefCmp_def)
  from assms i n r t show ?thesis by (simp add: mergeAll_def)
qed

lemma shape_of_shared_names:
  assumes shape: "\<forall>c \<in> set syscalls. CallName c = sendmsg \<longrightarrow> policyShape c"
    and same: "\<forall>a \<in> set syscalls. \<forall>b \<in> set syscalls. Name a = Name b \<longrightarrow> CallName a = CallName b"
  shows "\<forall>c \<in> set syscalls.
           CallName c = sendmsg \<or> (\<exists>s \<in> set syscalls. CallName s = sendmsg \<and> Name s = Name c)
           \<longrightarrow> policyShape c"
proof (intro ballI impI)
  fix c assume c: "c \<in> set syscalls"
    and d: "CallName c = sendmsg \<or> (\<exists>s \<in> set syscalls. CallName s = sendmsg \<and> Name s = Name c)"
  from d have "CallName c = sendmsg"
  proof
    assume "CallName c = sendmsg"
    then show ?thesis .
  next
    assume "\<exists>s \<in> set syscalls. CallName s = sendmsg \<and> Name s = Name c"
    then obtain s where s: "s \<in> set syscalls" "CallName s = sendmsg" "Name s = Name c" by blast
    from same s(1) c s(3) have "CallName s = CallName c" by blast
    with s(2) show ?thesis by simp
  qed
  with shape c show "policyShape c" by blast
qed

subsection \<open>The pointer loops against the loops of the assembled description\<close>

lemma appendNodes_Some: "appendNodes (Some nodes) ns = Inr (Some (nodes @ ns))"
  by (cases ns) simp_all

lemma resolve_append:
  "resolve P (ds @ es) =
     (case resolve P ds of None \<Rightarrow> None
      | Some a \<Rightarrow> map_option (\<lambda>b. a @ b) (resolve P es))"
proof (induction ds)
  case Nil
  then show ?case by (cases "resolve P es") simp_all
next
  case (Cons d ds)
  show ?case
  proof (cases d)
    case (DNode n)
    with Cons show ?thesis
      by (cases "resolve P ds"; cases "resolve P es") simp_all
  next
    case (DParsed t)
    with Cons show ?thesis
      by (cases "P t"; cases "resolve P ds"; cases "resolve P es") simp_all
  qed
qed

lemma resolve_nodes: "resolve P (map DNode ns) = Some ns"
  by (induction ns) simp_all

lemma resolve_snoc_node:
  "resolve P desc = Some nodes \<Longrightarrow> resolve P (desc @ [DNode n]) = Some (nodes @ [n])"
  by (simp add: resolve_append)

lemma syscallLoopPtr_Some:
  "syscallLoopPtr netlinks xs (Some nodes, used) = Inr (d', used') \<Longrightarrow>
   resolve P desc = Some nodes \<Longrightarrow>
   \<exists>desc' nodes'. d' = Some nodes' \<and> syscallLoop netlinks xs (desc, used) = Inr (desc', used') \<and>
      resolve P desc' = Some nodes'"
proof (induction xs arbitrary: nodes used desc)
  case Nil
  from Nil(1) have "d' = Some nodes" "used' = used" by simp_all
  with Nil(2) show ?case by simp
next
  case (Cons c cs)
  note r = resolve_snoc_node [OF Cons.prems(2), of "NCall c"]
  show ?case
  proof (cases "CallName c = sendmsg")
    case False
    with Cons.prems(1) have "syscallLoopPtr netlinks cs (Some (nodes @ [NCall c]), used) = Inr (d', used')"
      by simp
    from Cons.IH [OF this r] False show ?thesis by simp
  next
    case True
    with Cons.prems(1) obtain f where f: "idx (Args c) 1 = Inr f" by (auto split: sum.splits)
    show ?thesis
    proof (cases "length (TArgs (FType f)) = 2")
      case False
      with True f Cons.prems(1)
      have "syscallLoopPtr netlinks cs (Some (nodes @ [NCall c]), used) = Inr (d', used')" by simp
      from Cons.IH [OF this r] True f False show ?thesis by simp
    next
      case two: True
      with True f Cons.prems(1) obtain p where p: "policy c = Inr p" by (auto split: sum.splits)
      show ?thesis
      proof (cases "snd (BinarySearchFunc netlinks p (\<lambda>a b. Compare (SName a) b))")
        case found: True
        with True f two p Cons.prems(1)
        have "syscallLoopPtr netlinks cs (Some (nodes @ [NCall c]), insert p used) = Inr (d', used')"
          by simp
        from Cons.IH [OF this r] True f two p found show ?thesis by simp
      next
        case absent: False
        with True f two p Cons.prems(1)
        have "syscallLoopPtr netlinks cs (Some nodes, insert p used) = Inr (d', used')" by simp
        from Cons.IH [OF this Cons.prems(2)] True f two p absent show ?thesis by simp
      qed
    qed
  qed
qed

lemma netlinkLoopPtr_Some:
  "netlinkLoopPtr used xs (Some nodes, names) =
     Inr (Some (nodes @ map NStruct xs), names @ filter (\<lambda>n. n \<notin> used) (map SName xs))"
  by (induction xs arbitrary: nodes names) simp_all

lemma syscallLoopPtr_returns:
  "\<forall>c \<in> set xs. CallName c = sendmsg \<longrightarrow> policyShape c \<Longrightarrow>
   \<exists>nodes' used'. syscallLoopPtr netlinks xs (Some nodes, used) = Inr (Some nodes', used')"
proof (induction xs arbitrary: nodes used)
  case Nil
  then show ?case by simp
next
  case (Cons c cs)
  from Cons.prems have rest: "\<forall>c \<in> set cs. CallName c = sendmsg \<longrightarrow> policyShape c" by simp
  note IH = Cons.IH [OF rest]
  show ?case
  proof (cases "CallName c = sendmsg")
    case False
    with IH [of "nodes @ [NCall c]" used] show ?thesis by simp
  next
    case True
    with Cons.prems have sh: "policyShape c" by simp
    then have i: "idx (Args c) 1 = Inr (Args c ! 1)" by (simp add: policyShape_def idx_def)
    note p = policy_of_shape [OF sh]
    show ?thesis
    proof (cases "length (TArgs (FType (Args c ! 1))) = 2")
      case False
      with True i IH [of "nodes @ [NCall c]" used] show ?thesis by simp
    next
      case two: True
      show ?thesis
      proof (cases "snd (BinarySearchFunc netlinks (Ident (TArgs (TArgs (FType (Args c ! 1)) ! 1) ! 1))
                      (\<lambda>a b. Compare (SName a) b))")
        case found: True
        with True i two p
          IH [of "nodes @ [NCall c]" "insert (Ident (TArgs (TArgs (FType (Args c ! 1)) ! 1) ! 1)) used"]
        show ?thesis by simp
      next
        case absent: False
        with True i two p
          IH [of nodes "insert (Ident (TArgs (TArgs (FType (Args c ! 1)) ! 1) ! 1)) used"]
        show ?thesis by simp
      qed
    qed
  qed
qed

lemma appendNodes_None: "appendNodes None ns = Inr d \<Longrightarrow> d = None"
  by (cases ns) simp_all

lemma syscallLoopPtr_None:
  "syscallLoopPtr netlinks xs (None, used) = Inr st \<Longrightarrow> fst st = None"
proof (induction xs arbitrary: used)
  case Nil
  then show ?case by auto
next
  case (Cons c cs)
  show ?case
  proof (cases "CallName c = sendmsg")
    case False
    with Cons.prems show ?thesis by simp
  next
    case True
    with Cons.prems obtain f where f: "idx (Args c) 1 = Inr f" by (auto split: sum.splits)
    show ?thesis
    proof (cases "length (TArgs (FType f)) = 2")
      case False
      with True f Cons.prems show ?thesis by simp
    next
      case two: True
      with True f Cons.prems obtain p where p: "policy c = Inr p" by (auto split: sum.splits)
      show ?thesis
      proof (cases "snd (BinarySearchFunc netlinks p (\<lambda>a b. Compare (SName a) b))")
        case True
        with \<open>CallName c = sendmsg\<close> f two p Cons.prems show ?thesis by simp
      next
        case False
        with \<open>CallName c = sendmsg\<close> f two p Cons.prems
        have "syscallLoopPtr netlinks cs (None, insert p used) = Inr st" by simp
        from Cons.IH [OF this] show ?thesis .
      qed
    qed
  qed
qed

lemma assemblePtr_header:
  assumes "assemblePtr env (incs1, final, netlinks1, types1, resources1) = Inr st"
  shows "\<exists>h. Parse env (autoGeneratedNotice @ commonKernelHeaders) = Some h"
proof (rule ccontr)
  assume "\<not> ?thesis"
  then have h: "Parse env (autoGeneratedNotice @ commonKernelHeaders) = None" by simp
  from assms h obtain descI where
    I: "appendNodes None (map NInclude incs1) = Inr descI"
    by (cases "appendNodes None (map NInclude incs1)") (simp_all add: assemblePtr_def)
  from appendNodes_None [OF I] I have I': "appendNodes None (map NInclude incs1) = Inr None" by simp
  from assms h I' obtain descR where
    R: "appendNodes None (map NResource resources1) = Inr descR"
    by (cases "appendNodes None (map NResource resources1)") (simp_all add: assemblePtr_def)
  from appendNodes_None [OF R] R have R': "appendNodes None (map NResource resources1) = Inr None"
    by simp
  from assms h I' R' obtain descT where
    T: "appendNodes None (map NTypeDef types1) = Inr descT"
    by (cases "appendNodes None (map NTypeDef types1)") (simp_all add: assemblePtr_def)
  from appendNodes_None [OF T] T have T': "appendNodes None (map NTypeDef types1) = Inr None"
    by simp
  from assms h I' R' T' obtain stS where
    S: "syscallLoopPtr netlinks1 final (None, {}) = Inr stS"
    by (cases "syscallLoopPtr netlinks1 final (None, {})") (simp_all add: assemblePtr_def)
  from syscallLoopPtr_None [OF S] have "fst stS = None" .
  with assms h I' R' T' S show False by (simp add: assemblePtr_def appendParsed_def)
qed

lemma resolve_map_node: "resolve P (map (\<lambda>x. DNode (f x)) xs) = Some (map f xs)"
  by (induction xs) simp_all

lemma resolve_desc0:
  "P header = Some h \<Longrightarrow>
   resolve P ([DParsed header]
              @ map (\<lambda>n. DNode (NInclude n)) incs1
              @ map (\<lambda>n. DNode (NResource n)) resources1
              @ map (\<lambda>n. DNode (NTypeDef n)) types1) =
     Some (h @ map NInclude incs1 @ map NResource resources1 @ map NTypeDef types1)"
proof -
  assume h: "P header = Some h"
  have a: "map (\<lambda>n. DNode (NInclude n)) incs1 = map DNode (map NInclude incs1)"
    and b: "map (\<lambda>n. DNode (NResource n)) resources1 = map DNode (map NResource resources1)"
    and c: "map (\<lambda>n. DNode (NTypeDef n)) types1 = map DNode (map NTypeDef types1)"
    by simp_all
  have "resolve P (map DNode (map NInclude incs1 @ map NResource resources1 @ map NTypeDef types1)) =
          Some (map NInclude incs1 @ map NResource resources1 @ map NTypeDef types1)"
    by (rule resolve_nodes)
  with h show ?thesis unfolding a b c by simp
qed

lemma assemblePtr_refines:
  assumes i: "mergeIncludes incs = Inr incs1"
    and m: "mergeSyscalls syscalls = Inr final"
    and n: "SortFunc structCmp netlinks = Inr netlinks1"
    and r: "SortFunc resourceCmp resources = Inr resources1"
    and t: "SortFunc typedefCmp types = Inr types1"
    and a: "assemblePtr env (incs1, final, netlinks1, types1, resources1) = Inr st"
  shows "\<exists>desc2 nodes2.
           fst st = Some nodes2 \<and> resolve (Parse env) desc2 = Some nodes2 \<and>
           assembleDesc incs syscalls netlinks types resources = Inr (desc2 @ [DParsed (snd st)])"
proof -
  let ?header = "autoGeneratedNotice @ commonKernelHeaders"
  let ?desc0 = "[DParsed ?header]
                  @ map (\<lambda>n. DNode (NInclude n)) incs1
                  @ map (\<lambda>n. DNode (NResource n)) resources1
                  @ map (\<lambda>n. DNode (NTypeDef n)) types1"
  from assemblePtr_header [OF a] obtain h where h: "Parse env ?header = Some h" by blast
  let ?nodes0 = "h @ map NInclude incs1 @ map NResource resources1 @ map NTypeDef types1"
  note r0 = resolve_desc0 [of "Parse env" ?header h incs1 resources1 types1, OF h]
  from a h obtain stS where
    S: "syscallLoopPtr netlinks1 final (Some ?nodes0, {}) = Inr stS"
    by (cases "syscallLoopPtr netlinks1 final (Some ?nodes0, {})")
       (simp_all add: assemblePtr_def appendNodes_Some)
  obtain d1 used1 where stS: "stS = (d1, used1)" by (cases stS)
  from syscallLoopPtr_Some [OF S [unfolded stS] r0] obtain desc1 nodes1 where
    d1: "d1 = Some nodes1" and
    l: "syscallLoop netlinks1 final (?desc0, {}) = Inr (desc1, used1)" and
    r1: "resolve (Parse env) desc1 = Some nodes1" by blast
  from a h S stS d1 obtain mm where mm: "Parse env mmap2 = Some mm"
    by (cases "Parse env mmap2") (simp_all add: assemblePtr_def appendNodes_Some appendParsed_def)
  let ?names = "filter (\<lambda>n. n \<notin> used1) (map SName netlinks1)"
  from a h S stS d1 mm have st:
    "st = (Some ((nodes1 @ mm) @ map NStruct netlinks1),
           netlinkUnionHead @ concat (formatArms 0 ?names) @ '']'')"
    by (simp add: assemblePtr_def appendNodes_Some appendParsed_def netlinkLoopPtr_Some)
  let ?desc2 = "desc1 @ [DParsed mmap2] @ map (\<lambda>s. DNode (NStruct s)) netlinks1"
  have r2: "resolve (Parse env) ?desc2 = Some ((nodes1 @ mm) @ map NStruct netlinks1)"
    by (simp add: resolve_append r1 mm resolve_map_node)
  have "assembleDesc incs syscalls netlinks types resources = Inr (?desc2 @ [DParsed (snd st)])"
    using l by (simp add: assembleDesc_def i m n r t netlinkLoop_result st)
  with st r2 show ?thesis by (intro exI [of _ ?desc2] exI [of _ "(nodes1 @ mm) @ map NStruct netlinks1"]) simp
qed

lemma mergeAll_Inr:
  "mergeAll incs syscalls netlinks types resources = Inr merged \<Longrightarrow>
   \<exists>incs1 final netlinks1 types1 resources1.
     merged = (incs1, final, netlinks1, types1, resources1) \<and>
     mergeIncludes incs = Inr incs1 \<and> mergeSyscalls syscalls = Inr final \<and>
     SortFunc structCmp netlinks = Inr netlinks1 \<and>
     SortFunc resourceCmp resources = Inr resources1 \<and>
     SortFunc typedefCmp types = Inr types1"
  by (auto simp: mergeAll_def split: sum.splits)

lemma parseAndWrite_Inr:
  "parseAndWrite env st = Inr bytes \<Longrightarrow>
   \<exists>nodes u again. fst st = Some nodes \<and> Parse env (snd st) = Some u \<and>
     Parse env (Format env (nodes @ u)) = Some again \<and> bytes = Format env again \<and>
     WriteFile env bytes = None"
  by (auto simp: parseAndWrite_def appendParsed_def split: option.splits)

lemma writeOutput_refines:
  assumes "writeOutput env incs syscalls netlinks types resources = Inr bytes"
  shows "\<exists>desc nodes again.
           assembleDesc incs syscalls netlinks types resources = Inr desc \<and>
           resolve (Parse env) desc = Some nodes \<and>
           Parse env (Format env nodes) = Some again \<and>
           bytes = Format env again \<and> WriteFile env bytes = None"
proof -
  from assms obtain merged where ma: "mergeAll incs syscalls netlinks types resources = Inr merged"
    by (cases "mergeAll incs syscalls netlinks types resources") (simp_all add: writeOutput_def)
  from assms ma obtain st where a: "assemblePtr env merged = Inr st"
    and pw: "parseAndWrite env st = Inr bytes"
    by (cases "assemblePtr env merged") (simp_all add: writeOutput_def)
  from mergeAll_Inr [OF ma] obtain incs1 final netlinks1 types1 resources1 where
    mg: "merged = (incs1, final, netlinks1, types1, resources1)" and
    i: "mergeIncludes incs = Inr incs1" and m: "mergeSyscalls syscalls = Inr final" and
    n: "SortFunc structCmp netlinks = Inr netlinks1" and
    r: "SortFunc resourceCmp resources = Inr resources1" and
    t: "SortFunc typedefCmp types = Inr types1" by blast
  from assemblePtr_refines [OF i m n r t a [unfolded mg]] obtain desc2 nodes2 where
    f: "fst st = Some nodes2" and r2: "resolve (Parse env) desc2 = Some nodes2" and
    ad: "assembleDesc incs syscalls netlinks types resources = Inr (desc2 @ [DParsed (snd st)])"
    by blast
  from parseAndWrite_Inr [OF pw] f obtain u again where
    u: "Parse env (snd st) = Some u" and
    ag: "Parse env (Format env (nodes2 @ u)) = Some again" and
    b: "bytes = Format env again" and w: "WriteFile env bytes = None" by auto
  have "resolve (Parse env) (desc2 @ [DParsed (snd st)]) = Some (nodes2 @ u)"
    by (simp add: resolve_append r2 u)
  with ad ag b w show ?thesis by blast
qed

lemma assemblePtr_returns:
  assumes sh: "\<forall>c \<in> set final. CallName c = sendmsg \<longrightarrow> policyShape c"
    and p: "\<forall>t. Parse env t \<noteq> None"
  shows "\<exists>nodes u. assemblePtr env (incs1, final, netlinks1, types1, resources1) = Inr (Some nodes, u)"
proof -
  from p obtain h where h: "Parse env (autoGeneratedNotice @ commonKernelHeaders) = Some h" by auto
  from p obtain mm where mm: "Parse env mmap2 = Some mm" by auto
  from syscallLoopPtr_returns [OF sh] obtain nodes1 used1 where
    "syscallLoopPtr netlinks1 final
       (Some (h @ map NInclude incs1 @ map NResource resources1 @ map NTypeDef types1), {}) =
     Inr (Some nodes1, used1)" by blast
  with h mm show ?thesis
    by (simp add: assemblePtr_def appendNodes_Some appendParsed_def netlinkLoopPtr_Some)
qed

lemma parseAndWrite_returns:
  assumes "\<forall>t. Parse env t \<noteq> None" and "\<forall>b. WriteFile env b = None"
  shows "\<exists>bytes. parseAndWrite env (Some nodes, u) = Inr bytes"
proof -
  from assms(1) obtain v where v: "Parse env u = Some v" by auto
  from assms(1) obtain again where "Parse env (Format env (nodes @ v)) = Some again" by auto
  with v assms(2) show ?thesis by (simp add: parseAndWrite_def appendParsed_def)
qed

text \<open>
  What a run writes is the serializer's rendering of the description that \<open>pipeline\<close>
  assembles, once the parser has resolved the three texts in it.
\<close>

lemma mainRun_refines:
  assumes "mainRun env rename outs = Inr bytes"
  shows "\<exists>desc nodes again.
           pipeline rename outs = Inr desc \<and>
           resolve (Parse env) desc = Some nodes \<and>
           Parse env (Format env nodes) = Some again \<and>
           bytes = Format env again \<and> WriteFile env bytes = None"
proof -
  from assms obtain b where b: "mainLoop rename noBuckets outs = Inr b"
    by (cases "mainLoop rename noBuckets outs") (simp_all add: mainRun_def)
  with assms have "writeOutput env (includes_acc b) (syscalls_acc b) (netlinks_acc b)
                     (typeDefs_acc b) (resources_acc b) = Inr bytes"
    by (simp add: mainRun_def)
  from writeOutput_refines [OF this] b show ?thesis by (simp add: pipeline_def)
qed

subsection \<open>Equal exposed names and entry points\<close>

text \<open>
  \<open>writeOutput\<close> is called once (line 109), with the syscalls that \<open>main\<close> collected:
  declarations as the parser left them when they are exempt from renaming, and clones
  named \<open>n$auto\<close> with entry point \<open>n\<close> (lines 267 and 268) otherwise.  When the
  parser's declarations have the part of the name before \<open>$\<close> as their entry point,
  and no name of the rename table contains a \<open>$\<close>, every collected declaration does
  too; two collected declarations with the same exposed name then have the same entry
  point.
\<close>

lemma callName_auto: "CHR ''$'' \<notin> set v \<Longrightarrow> callName (v @ ''$auto'') = v"
proof -
  assume "CHR ''$'' \<notin> set v"
  then have "takeWhile (\<lambda>c. c \<noteq> CHR ''$'') (v @ ''$auto'') =
             v @ takeWhile (\<lambda>c. c \<noteq> CHR ''$'') ''$auto''"
    by (intro takeWhile_append2) auto
  then show ?thesis by (simp add: callName_def)
qed

lemma renameSyscall_entry_point:
  assumes c: "CallName c = callName (Name c)"
    and tbl: "\<forall>names \<in> ran rename. \<forall>v \<in> set names. CHR ''$'' \<notin> set v"
    and d: "d \<in> set (renameSyscall c rename)"
  shows "CallName d = callName (Name d)"
proof (cases "shouldRenameSyscall (CallName c)")
  case False
  with d have "d = c" by (simp add: renameSyscall_def)
  with c show ?thesis by simp
next
  case True
  with d obtain names where nm: "rename (CallName c) = Some names"
    and dl: "d \<in> set (renameLoop c names)"
    by (cases "rename (CallName c)") (simp_all add: renameSyscall_def)
  from dl obtain v where v: "v \<in> set names" and dv: "d = c\<lparr>Name := v @ ''$auto'', CallName := v\<rparr>"
    by (auto simp: renameLoop_map_filter)
  from nm have "names \<in> ran rename" by (rule ranI)
  with tbl v have "CHR ''$'' \<notin> set v" by blast
  from callName_auto [OF this] dv show ?thesis by simp
qed

lemma callsOf_NCall: "d \<in> set (callsOf rename n) \<Longrightarrow> \<exists>c. n = NCall c \<and> d \<in> set (renameSyscall c rename)"
  by (cases n) simp_all

lemma mainLoop_entry_points:
  assumes run: "mainLoop rename noBuckets outs = Inr b"
    and tbl: "\<forall>names \<in> ran rename. \<forall>v \<in> set names. CHR ''$'' \<notin> set v"
    and prs: "\<forall>out \<in> set outs. \<forall>nodes c. parsed out = Some nodes \<longrightarrow> NCall c \<in> set nodes
                \<longrightarrow> CallName c = callName (Name c)"
  shows "\<forall>d \<in> set (syscalls_acc b). CallName d = callName (Name d)"
proof
  fix d assume d: "d \<in> set (syscalls_acc b)"
  from mainLoop_Inr [OF run] have ok: "\<forall>out \<in> set outs. stderr out = [] \<and> parsed out \<noteq> None"
    and b: "b = foldl (classify rename) noBuckets (concat (map (\<lambda>out. the (parsed out)) outs))"
    by simp_all
  have "syscalls_acc b = concat (map (callsOf rename) (concat (map (\<lambda>out. the (parsed out)) outs)))"
    by (subst b, subst foldl_classify) (simp add: noBuckets_def)
  with d obtain n out where out: "out \<in> set outs" and n: "n \<in> set (the (parsed out))"
    and dn: "d \<in> set (callsOf rename n)" by auto
  from callsOf_NCall [OF dn] obtain c where c: "n = NCall c" and dc: "d \<in> set (renameSyscall c rename)"
    by blast
  from ok out obtain nodes where nodes: "parsed out = Some nodes" by auto
  with n c have "NCall c \<in> set nodes" by simp
  with prs out nodes have "CallName c = callName (Name c)" by blast
  from renameSyscall_entry_point [OF this tbl dc] show "CallName d = callName (Name d)" .
qed

lemma entry_points_same_name:
  "\<forall>c \<in> set syscalls. CallName c = callName (Name c) \<Longrightarrow>
   \<forall>a \<in> set syscalls. \<forall>b \<in> set syscalls. Name a = Name b \<longrightarrow> CallName a = CallName b"
  by simp

lemma mainLoop_same_name_same_entry:
  assumes "mainLoop rename noBuckets outs = Inr acc"
    and "\<forall>names \<in> ran rename. \<forall>v \<in> set names. CHR ''$'' \<notin> set v"
    and "\<forall>out \<in> set outs. \<forall>nodes c. parsed out = Some nodes \<longrightarrow> NCall c \<in> set nodes
           \<longrightarrow> CallName c = callName (Name c)"
  shows "\<forall>a \<in> set (syscalls_acc acc). \<forall>b \<in> set (syscalls_acc acc).
           Name a = Name b \<longrightarrow> CallName a = CallName b"
  by (rule entry_points_same_name [OF mainLoop_entry_points [OF assms]])

text \<open>
  Claim C10.  Let every declaration of the list whose entry point is \<open>sendmsg\<close> have at
  least two arguments, at least two type arguments in the type of its second argument,
  and at least two type arguments in the second of those; and let declarations of the
  list with the same exposed name have the same entry point, as they do in every list
  that \<open>main\<close> collects.  Then the comparator returns on every pair of the list
  (whichever pairs the sort compares), the merge of the syscalls returns, the policy
  extraction returns for every send declaration of the merged list, the assembly of the
  description returns, and
  \<open>writeOutput\<close> never indexes out of range: its only remaining exits are those of its
  collaborators (a nil description from the parser, a failed write), and when the parser
  never returns nil and the write succeeds, \<open>writeOutput\<close> returns the text it wrote.
\<close>

theorem sendmsg_shape_index_safe:
  assumes shape: "\<forall>c \<in> set syscalls. CallName c = sendmsg \<longrightarrow> policyShape c"
    and same: "\<forall>a \<in> set syscalls. \<forall>b \<in> set syscalls. Name a = Name b \<longrightarrow> CallName a = CallName b"
  shows "(\<forall>a \<in> set syscalls. \<forall>b \<in> set syscalls. \<exists>r. syscallCmp a b = Inr r) \<and>
         (\<exists>final. mergeSyscalls syscalls = Inr final \<and>
            (\<forall>c \<in> set final. CallName c = sendmsg \<longrightarrow> (\<exists>p. policy c = Inr p))) \<and>
         (\<exists>desc. assembleDesc incs syscalls netlinks types resources = Inr desc) \<and>
         writeOutput env incs syscalls netlinks types resources \<noteq> Inl IndexOutOfRange \<and>
         ((\<forall>t. Parse env t \<noteq> None) \<and> (\<forall>b. WriteFile env b = None) \<longrightarrow>
            (\<exists>bytes. writeOutput env incs syscalls netlinks types resources = Inr bytes))"
proof -
  note both = shape_of_shared_names [OF shape same]
  have cmp: "\<forall>a \<in> set syscalls. \<forall>b \<in> set syscalls. \<exists>r. syscallCmp a b = Inr r"
  proof (intro ballI)
    fix a b assume a: "a \<in> set syscalls" and b: "b \<in> set syscalls"
    show "\<exists>r. syscallCmp a b = Inr r"
    proof (rule syscallCmp_total, intro impI)
      assume s: "CallName a = sendmsg" and n: "Name a = Name b"
      from shape a s have sa: "policyShape a" by blast
      from same a b n have "CallName a = CallName b" by blast
      with s have "CallName b = sendmsg" by simp
      with shape b have "policyShape b" by blast
      with sa show "policyShape a \<and> policyShape b" ..
    qed
  qed
  from mergeSyscalls_total [OF both] obtain final where
    m: "mergeSyscalls syscalls = Inr final" and
    sh: "\<forall>c \<in> set final. CallName c = sendmsg \<longrightarrow> policyShape c" by blast
  have pol: "\<forall>c \<in> set final. CallName c = sendmsg \<longrightarrow> (\<exists>p. policy c = Inr p)"
  proof (intro ballI impI)
    fix c assume "c \<in> set final" "CallName c = sendmsg"
    with sh have "policyShape c" by blast
    from policy_of_shape [OF this] show "\<exists>p. policy c = Inr p" by blast
  qed
  have asm: "\<exists>desc. assembleDesc incs syscalls netlinks types resources = Inr desc"
    using assembleDesc_returns [OF both] by blast
  from mergeAll_returns [OF m] obtain incs1 netlinks1 types1 resources1 where
    ma: "mergeAll incs syscalls netlinks types resources =
           Inr (incs1, final, netlinks1, types1, resources1)" by blast
  have safe: "writeOutput env incs syscalls netlinks types resources \<noteq> Inl IndexOutOfRange"
  proof (cases "assemblePtr env (incs1, final, netlinks1, types1, resources1)")
    case (Inl e)
    from assemblePtr_error [OF sh Inl] have "e = NilDereference" .
    with Inl ma show ?thesis by (simp add: writeOutput_def)
  next
    case (Inr st)
    with ma have "writeOutput env incs syscalls netlinks types resources = parseAndWrite env st"
      by (simp add: writeOutput_def)
    then show ?thesis using parseAndWrite_error by simp
  qed
  have ret: "\<exists>bytes. writeOutput env incs syscalls netlinks types resources = Inr bytes"
    if p: "\<forall>t. Parse env t \<noteq> None" and w: "\<forall>b. WriteFile env b = None"
  proof -
    from assemblePtr_returns [OF sh p] obtain nodes u where
      a: "assemblePtr env (incs1, final, netlinks1, types1, resources1) = Inr (Some nodes, u)"
      by blast
    from parseAndWrite_returns [OF p w] obtain bytes where
      "parseAndWrite env (Some nodes, u) = Inr bytes" by blast
    with ma a show ?thesis by (simp add: writeOutput_def)
  qed
  from cmp m pol asm safe ret show ?thesis by blast
qed

theorem sendmsg_shape_index_safe_witness:
  "(\<exists>r. syscallCmp (send_call ''sendmsg$auto_pol'' ''pol'') (send_call ''sendmsg$auto_pol'' ''pol2'') = Inr r) \<and>
   (\<exists>final. mergeSyscalls [plain_call ''getpid$auto'' ''getpid'' [],
                send_call ''sendmsg$auto_pol'' ''pol'', send_call ''sendmsg$auto_pol'' ''pol2''] = Inr final) \<and>
   (\<exists>desc. assembleDesc [] [plain_call ''getpid$auto'' ''getpid'' [],
                send_call ''sendmsg$auto_pol'' ''pol'', send_call ''sendmsg$auto_pol'' ''pol2''] [] [] [] = Inr desc) \<and>
   (\<exists>bytes. writeOutput quiet_env [] [plain_call ''getpid$auto'' ''getpid'' [],
                send_call ''sendmsg$auto_pol'' ''pol'', send_call ''sendmsg$auto_pol'' ''pol2''] [] [] []
      = Inr bytes)"
proof -
  let ?l = "[plain_call ''getpid$auto'' ''getpid'' [],
             send_call ''sendmsg$auto_pol'' ''pol'', send_call ''sendmsg$auto_pol'' ''pol2'']"
  have shape: "\<forall>c \<in> set ?l. CallName c = sendmsg \<longrightarrow> policyShape c"
    by (simp add: policyShape_def send_call_def plain_call_def msg_type_def sendmsg_def)
  have same: "\<forall>a \<in> set ?l. \<forall>b \<in> set ?l. Name a = Name b \<longrightarrow> CallName a = CallName b"
    by (simp add: send_call_def plain_call_def)
  have m: "send_call ''sendmsg$auto_pol'' ''pol'' \<in> set ?l"
          "send_call ''sendmsg$auto_pol'' ''pol2'' \<in> set ?l" by simp_all
  have q: "(\<forall>t. Parse quiet_env t \<noteq> None) \<and> (\<forall>b. WriteFile quiet_env b = None)"
    by (simp add: quiet_env_def)
  from sendmsg_shape_index_safe [OF shape same, of "[]" "[]" "[]" "[]" quiet_env] m q
  show ?thesis by blast
qed

end
